theory Spec2Isabelle
  imports Main "HOL-Library.AList"
begin

section \<open>The flat-file record store of the Tsono server\<close>

text \<open>
  The server (Express, one file) keeps four JSON files under \<^verbatim>\<open>data/\<close>: three
  collections (leads, contacts, investors) and one analytics document. This theory
  embeds the store helpers \<^verbatim>\<open>readData\<close> and \<^verbatim>\<open>writeData\<close>, the sanitising helpers,
  the three submission handlers, the two analytics writers and the startup
  initialisation, and states the properties of the specification over them.

  What is outside the embedding is said where it is left out: JavaScript strings are
  lists of code units below 256, numbers are integers, the directory tree is flat
  (a path names a file), the logger and the HTTP middleware (rate limiting, CSRF) are
  not modelled.
\<close>

subsection \<open>Strings\<close>

type_synonym path = string

definition code :: "char \<Rightarrow> nat" where
  "code c = of_char c"

text \<open>White space as \<^verbatim>\<open>\s\<close> and \<^verbatim>\<open>String.prototype.trim\<close> see it, among the code
  units below 256: TAB, LF, VT, FF, CR, SPACE and NO-BREAK SPACE.\<close>

definition is_space :: "char \<Rightarrow> bool" where
  "is_space c = (code c \<in> {9, 10, 11, 12, 13, 32, 160})"

definition trim :: "string \<Rightarrow> string" where
  "trim s = rev (dropWhile is_space (rev (dropWhile is_space s)))"

text \<open>\<^verbatim>\<open>toLowerCase\<close> on code units below 256: A-Z and the Latin-1 capitals
  (U+00C0 to U+00DE without the multiplication sign U+00D7) move up by 32.\<close>

definition is_upper :: "char \<Rightarrow> bool" where
  "is_upper c = ((65 \<le> code c \<and> code c \<le> 90) \<or> (192 \<le> code c \<and> code c \<le> 222 \<and> code c \<noteq> 215))"

definition lower_char :: "char \<Rightarrow> char" where
  "lower_char c = (if is_upper c then char_of (code c + 32) else c)"

definition toLowerCase :: "string \<Rightarrow> string" where
  "toLowerCase s = map lower_char s"


text \<open>\<^verbatim>\<open>s.includes(sub)\<close>: \<^verbatim>\<open>sub\<close> occurs in \<^verbatim>\<open>s\<close> at some position.\<close>

fun str_includes :: "string \<Rightarrow> string \<Rightarrow> bool" where
  "str_includes [] sub = (sub = [])"
| "str_includes (c # cs) sub = (take (length sub) (c # cs) = sub \<or> str_includes cs sub)"

subsection \<open>JavaScript values and JSON\<close>

text \<open>
  A value in memory. An array carries its elements and, as every JavaScript object
  may, named properties beside them: \<^verbatim>\<open>a = []; a.pageViews = {}\<close> is
  \<open>Arr [] [(''pageViews'', Obj [])]\<close>. An object is its properties in insertion
  order. The keys the server uses on arrays (\<^verbatim>\<open>pageViews\<close>, \<^verbatim>\<open>referrers\<close>,
  \<^verbatim>\<open>events\<close>, a date key, a request path) are never array indices.
\<close>

datatype jsval =
    Undefined
  | Null
  | Bool bool
  | Num int
  | Str string
  | Arr "jsval list" "(string \<times> jsval) list"
  | Obj "(string \<times> jsval) list"

datatype error = TypeError | SyntaxError | ENOENT | EACCES | ENOSPC | ELOCKED | Unmodelled

definition bindE :: "error + 'a \<Rightarrow> ('a \<Rightarrow> error + 'b) \<Rightarrow> error + 'b" where
  "bindE m f = (case m of Inl e \<Rightarrow> Inl e | Inr x \<Rightarrow> f x)"

text \<open>\<^verbatim>\<open>!v\<close> is \<open>\<not> truthy v\<close>.\<close>

fun truthy :: "jsval \<Rightarrow> bool" where
  "truthy Undefined = False"
| "truthy Null = False"
| "truthy (Bool b) = b"
| "truthy (Num n) = (n \<noteq> 0)"
| "truthy (Str s) = (s \<noteq> [])"
| "truthy (Arr xs ps) = True"
| "truthy (Obj ps) = True"

definition lookup :: "(string \<times> jsval) list \<Rightarrow> string \<Rightarrow> jsval" where
  "lookup ps k = (case map_of ps k of None \<Rightarrow> Undefined | Some v \<Rightarrow> v)"

text \<open>\<^verbatim>\<open>v[k]\<close> for a key that is no array index and no built-in property: a
  \<^verbatim>\<open>TypeError\<close> on \<^verbatim>\<open>undefined\<close> and \<^verbatim>\<open>null\<close>, \<^verbatim>\<open>undefined\<close> on the other
  primitives.\<close>

fun get_prop :: "jsval \<Rightarrow> string \<Rightarrow> error + jsval" where
  "get_prop Undefined k = Inl TypeError"
| "get_prop Null k = Inl TypeError"
| "get_prop (Arr xs ps) k = Inr (lookup ps k)"
| "get_prop (Obj ps) k = Inr (lookup ps k)"
| "get_prop v k = Inr Undefined"

text \<open>\<^verbatim>\<open>v[k] = x\<close>. The server file is not in strict mode, so the assignment to a
  property of a number, a string or a boolean is silently dropped.\<close>

fun set_prop :: "jsval \<Rightarrow> string \<Rightarrow> jsval \<Rightarrow> error + jsval" where
  "set_prop Undefined k x = Inl TypeError"
| "set_prop Null k x = Inl TypeError"
| "set_prop (Arr xs ps) k x = Inr (Arr xs (AList.update k x ps))"
| "set_prop (Obj ps) k x = Inr (Obj (AList.update k x ps))"
| "set_prop v k x = Inr v"

text \<open>
  What \<^verbatim>\<open>JSON.stringify\<close> keeps of a value: the elements of an array and not its
  named properties, the properties of an object whose value is not \<^verbatim>\<open>undefined\<close>;
  \<^verbatim>\<open>undefined\<close> inside an array is written \<^verbatim>\<open>null\<close>.
\<close>

fun json_elem :: "jsval \<Rightarrow> jsval" where
  "json_elem Undefined = Null"
| "json_elem v = v"

primrec to_json :: "jsval \<Rightarrow> jsval" where
  "to_json Undefined = Undefined"
| "to_json Null = Null"
| "to_json (Bool b) = Bool b"
| "to_json (Num n) = Num n"
| "to_json (Str s) = Str s"
| "to_json (Arr xs ps) = Arr (map (json_elem \<circ> to_json) xs) []"
| "to_json (Obj ps) = Obj (filter (\<lambda>kv. snd kv \<noteq> Undefined) (map (map_prod id to_json) ps))"

text \<open>
  The text of a file is either JSON text, kept as the value it denotes, or text that
  \<^verbatim>\<open>JSON.parse\<close> rejects. The literal \<^verbatim>\<open>'[]'\<close> is \<open>JsonText (Arr [] [])\<close> and
  \<^verbatim>\<open>'{}'\<close> is \<open>JsonText (Obj [])\<close>.
\<close>

datatype content = JsonText jsval | BadText string

definition JSON_stringify :: "jsval \<Rightarrow> content option" where
  "JSON_stringify v = (if v = Undefined then None else Some (JsonText (to_json v)))"

fun JSON_parse :: "content \<Rightarrow> error + jsval" where
  "JSON_parse (JsonText v) = Inr v"
| "JSON_parse (BadText s) = Inl SyntaxError"

subsection \<open>The file system, the locks and the clock\<close>

text \<open>
  \<open>files\<close> is the disk. A file in \<open>unreadable\<close> makes the read throw. A file in
  \<open>unwritable\<close> makes the write throw, and \<open>residue\<close> says how: with \<open>None\<close> the file
  cannot be opened (permissions) and stays as it was; with \<open>Some s\<close> the write fails
  after the file has been opened (a full disk, an I/O error). \<^verbatim>\<open>fs.writeFileSync\<close>
  opens with the flag \<^verbatim>\<open>w\<close>, which empties the file, and writes in place, so what
  is left is the part \<open>s\<close> of the new text that got through, possibly nothing: a
  proper prefix of the text of an array or an object, which is not JSON.
  \<open>held\<close> are the lock directories this process has created (a release removes
  the directory and does not fail); \<open>busy f\<close> is the number of further lock attempts on
  \<open>f\<close> that will find the lock of another process in place.
  \<open>wall\<close> is the wall clock in milliseconds: the \<open>n\<close>-th reading is \<open>wall n\<close>, and \<open>tick\<close>
  counts the readings made.
  \<open>zone_at t\<close> is the offset of local time from UTC, in milliseconds, at the time value
  \<open>t\<close>, and \<open>zone_of_local l\<close> the offset that belongs to the local time \<open>l\<close> (the two
  forms of the local time zone adjustment of a \<^verbatim>\<open>Date\<close>).
\<close>

record world =
  files :: "path \<Rightarrow> content option"
  unreadable :: "path set"
  unwritable :: "path set"
  residue :: "path \<Rightarrow> string option"
  busy :: "path \<Rightarrow> nat"
  held :: "path set"
  wall :: "nat \<Rightarrow> int"
  tick :: nat
  zone_at :: "int \<Rightarrow> int"
  zone_of_local :: "int \<Rightarrow> int"

definition fs_existsSync :: "path \<Rightarrow> world \<Rightarrow> bool" where
  "fs_existsSync file w = (files w file \<noteq> None)"

definition fs_readFileSync :: "path \<Rightarrow> world \<Rightarrow> (error + content) \<times> world" where
  "fs_readFileSync file w =
     (case files w file of
        None \<Rightarrow> (Inl ENOENT, w)
      | Some t \<Rightarrow> if file \<in> unreadable w then (Inl EACCES, w) else (Inr t, w))"

text \<open>\<open>None\<close> when the call returns, \<open>Some e\<close> when it throws \<open>e\<close>; the world is the
  disk it leaves in either case.\<close>

definition fs_writeFileSync :: "path \<Rightarrow> content option \<Rightarrow> world \<Rightarrow> error option \<times> world" where
  "fs_writeFileSync file data w =
     (case data of
        None \<Rightarrow> (Some TypeError, w)
      | Some t \<Rightarrow>
          if file \<in> unwritable w
          then (case residue w file of
                  None \<Rightarrow> (Some EACCES, w)
                | Some s \<Rightarrow> (Some ENOSPC, w\<lparr>files := (files w)(file \<mapsto> BadText s)\<rparr>))
          else (None, w\<lparr>files := (files w)(file \<mapsto> t)\<rparr>))"

definition Date_now :: "world \<Rightarrow> int \<times> world" where
  "Date_now w = (wall w (tick w), w\<lparr>tick := Suc (tick w)\<rparr>)"

subsection \<open>Data files and their initialisation\<close>

definition DATA_FILES_leads :: path where
  "DATA_FILES_leads = ''data/leads.json''"

definition DATA_FILES_contacts :: path where
  "DATA_FILES_contacts = ''data/contacts.json''"

definition DATA_FILES_investors :: path where
  "DATA_FILES_investors = ''data/investors.json''"

definition DATA_FILES_analytics :: path where
  "DATA_FILES_analytics = ''data/analytics.json''"

text \<open>\<^verbatim>\<open>Object.values(DATA_FILES)\<close>, in the order of the object literal.\<close>

definition DATA_FILES_values :: "path list" where
  "DATA_FILES_values =
     [DATA_FILES_leads, DATA_FILES_contacts, DATA_FILES_investors, DATA_FILES_analytics]"

text \<open>The body of the \<^verbatim>\<open>forEach\<close> at startup: a file that does not exist is written
  with the text \<^verbatim>\<open>'[]'\<close>. A write that throws ends the process; the disk it
  leaves is not followed further.\<close>

definition init_file :: "path \<Rightarrow> world \<Rightarrow> error + world" where
  "init_file file w =
     (if \<not> fs_existsSync file w
      then (case fs_writeFileSync file (Some (JsonText (Arr [] []))) w of
              (None, w1) \<Rightarrow> Inr w1
            | (Some e, w1) \<Rightarrow> Inl e)
      else Inr w)"

fun init_files :: "path list \<Rightarrow> world \<Rightarrow> error + world" where
  "init_files [] w = Inr w"
| "init_files (f # fs) w = bindE (init_file f w) (init_files fs)"

definition startup :: "world \<Rightarrow> error + world" where
  "startup w = init_files DATA_FILES_values w"

subsection \<open>Reading a file\<close>

definition readData :: "path \<Rightarrow> world \<Rightarrow> jsval \<times> world" where
  "readData file w =
     (case fs_readFileSync file w of
        (Inl err, w1) \<Rightarrow> (Arr [] [], w1)
      | (Inr data, w1) \<Rightarrow>
          (case JSON_parse data of
             Inl err \<Rightarrow> (Arr [] [], w1)
           | Inr v \<Rightarrow> (v, w1)))"

subsection \<open>Validation and sanitising\<close>

text \<open>\<^verbatim>\<open>/^[^\s@]+@[^\s@]+\.[^\s@]+$/\<close>: a non-empty part before the first \<^verbatim>\<open>@\<close>,
  and after it a part without white space and \<^verbatim>\<open>@\<close> that has a dot with at least
  one character on each side of it.\<close>

definition isValidEmail :: "string \<Rightarrow> bool" where
  "isValidEmail email =
     (let l = takeWhile (\<lambda>c. c \<noteq> CHR ''@'') email;
          r = dropWhile (\<lambda>c. c \<noteq> CHR ''@'') email
      in l \<noteq> [] \<and> r \<noteq> [] \<and>
         (\<forall>c \<in> set l. \<not> is_space c) \<and>
         (\<forall>c \<in> set (tl r). \<not> is_space c \<and> c \<noteq> CHR ''@'') \<and>
         CHR ''.'' \<in> set (butlast (tl (tl r))))"

text \<open>\<^verbatim>\<open>.replace(/<[^>]*>/g, '')\<close>: from a \<^verbatim>\<open><\<close> that has a \<^verbatim>\<open>>\<close> somewhere
  after it, everything up to the first such \<^verbatim>\<open>>\<close> goes.\<close>

function strip_tags :: "string \<Rightarrow> string" where
  "strip_tags [] = []"
| "strip_tags (c # cs) =
     (if c = CHR ''<'' \<and> CHR ''>'' \<in> set cs
      then strip_tags (tl (dropWhile (\<lambda>x. x \<noteq> CHR ''>'') cs))
      else c # strip_tags cs)"
  by pat_completeness auto
termination
proof (relation "measure length")
  fix c :: char and cs :: string
  have "length (dropWhile (\<lambda>x. x \<noteq> CHR ''>'') cs) \<le> length cs"
    by (rule length_dropWhile_le)
  then show "(tl (dropWhile (\<lambda>x. x \<noteq> CHR ''>'') cs), c # cs) \<in> measure length"
    by simp
qed simp_all

definition entities :: "char \<Rightarrow> string" where
  "entities c =
     (if c = CHR ''<'' then ''&lt;''
      else if c = CHR ''>'' then ''&gt;''
      else if c = CHR 0x22 then ''&quot;''
      else if c = CHR 0x27 then ''&#x27;''
      else if c = CHR ''&'' then ''&amp;''
      else [c])"

text \<open>The argument is a string or \<^verbatim>\<open>undefined\<close> (\<open>None\<close>); \<^verbatim>\<open>!str\<close> holds of
  \<^verbatim>\<open>undefined\<close> and of the empty string.\<close>

definition sanitize :: "string option \<Rightarrow> nat \<Rightarrow> string" where
  "sanitize str maxLength =
     (case str of
        None \<Rightarrow> []
      | Some s \<Rightarrow>
          if s = [] then []
          else take maxLength (trim (concat (map entities (strip_tags s)))))"

subsection \<open>Dates\<close>

text \<open>
  A \<^verbatim>\<open>Date\<close> is its time value, the milliseconds since 1970-01-01T00:00:00Z, within the
  range \<^verbatim>\<open>Date\<close> accepts. \<^verbatim>\<open>toISOString\<close> prints the UTC calendar date and time of
  day: four digits for the years 0 to 9999, a sign and six digits otherwise.
\<close>

definition digit :: "int \<Rightarrow> char" where
  "digit d = char_of (48 + nat (d mod 10))"

definition pad2 :: "int \<Rightarrow> string" where
  "pad2 n = [digit (n div 10), digit n]"

definition pad3 :: "int \<Rightarrow> string" where
  "pad3 n = [digit (n div 100), digit (n div 10), digit n]"

definition pad4 :: "int \<Rightarrow> string" where
  "pad4 n = [digit (n div 1000), digit (n div 100), digit (n div 10), digit n]"

definition pad6 :: "int \<Rightarrow> string" where
  "pad6 n = [digit (n div 100000), digit (n div 10000)] @ pad4 n"

text \<open>The proleptic Gregorian date (year, month, day) of a day number counted from
  1970-01-01, by 400-year eras that start on 1 March.\<close>

definition civil_from_days :: "int \<Rightarrow> int \<times> int \<times> int" where
  "civil_from_days z0 =
     (let z = z0 + 719468;
          era = z div 146097;
          doe = z mod 146097;
          yoe = (doe - doe div 1460 + doe div 36524 - doe div 146096) div 365;
          doy = doe - (365 * yoe + yoe div 4 - yoe div 100);
          mp = (5 * doy + 2) div 153;
          d = doy - (153 * mp + 2) div 5 + 1;
          m = (if mp < 10 then mp + 3 else mp - 9);
          y = yoe + era * 400 + (if m \<le> 2 then 1 else 0)
      in (y, m, d))"

definition iso_year :: "int \<Rightarrow> string" where
  "iso_year y =
     (if 0 \<le> y \<and> y \<le> 9999 then pad4 y
      else (if y < 0 then ''-'' else ''+'') @ pad6 (abs y))"

definition toISOString :: "int \<Rightarrow> string" where
  "toISOString t =
     (let (y, m, d) = civil_from_days (t div 86400000);
          ms = t mod 86400000
      in iso_year y @ ''-'' @ pad2 m @ ''-'' @ pad2 d @ ''T'' @
         pad2 (ms div 3600000) @ '':'' @ pad2 (ms div 60000 mod 60) @ '':'' @
         pad2 (ms div 1000 mod 60) @ ''.'' @ pad3 (ms mod 1000) @ ''Z'')"

text \<open>\<^verbatim>\<open>iso.split('T')[0]\<close>\<close>

definition date_part :: "string \<Rightarrow> string" where
  "date_part s = takeWhile (\<lambda>c. c \<noteq> CHR ''T'') s"

definition getDateKey :: "world \<Rightarrow> string \<times> world" where
  "getDateKey w = (case Date_now w of (t, w1) \<Rightarrow> (date_part (toISOString t), w1))"

subsection \<open>Writing a file under its lock\<close>

text \<open>
  \<^verbatim>\<open>lockfile.lock(file, {retries: {retries: 3, ...}})\<close> of the library
  proper-lockfile: the file must exist; the lock directory is created if no one has
  it, and a failed attempt is repeated up to three times before the call rejects.
  The waiting between the attempts is the passing of \<open>busy\<close>. Stale locks are not
  modelled.
\<close>

definition lock_free :: "path \<Rightarrow> world \<Rightarrow> bool" where
  "lock_free file w = (busy w file = 0 \<and> file \<notin> held w)"

definition acquire :: "path \<Rightarrow> world \<Rightarrow> world" where
  "acquire file w = w\<lparr>held := insert file (held w)\<rparr>"

definition wait :: "path \<Rightarrow> world \<Rightarrow> world" where
  "wait file w = w\<lparr>busy := (busy w)(file := busy w file - 1)\<rparr>"

fun lock_attempts :: "nat \<Rightarrow> path \<Rightarrow> world \<Rightarrow> (error + unit) \<times> world" where
  "lock_attempts 0 file w =
     (if lock_free file w then (Inr (), acquire file w) else (Inl ELOCKED, wait file w))"
| "lock_attempts (Suc n) file w =
     (if lock_free file w then (Inr (), acquire file w) else lock_attempts n file (wait file w))"

definition lockfile_lock :: "path \<Rightarrow> world \<Rightarrow> (error + unit) \<times> world" where
  "lockfile_lock file w =
     (if files w file = None then (Inl ENOENT, w) else lock_attempts 3 file w)"

definition release :: "path \<Rightarrow> world \<Rightarrow> world" where
  "release file w = w\<lparr>held := held w - {file}\<rparr>"

text \<open>\<^verbatim>\<open>writeData\<close>: \<open>None\<close> when it returns, \<open>Some e\<close> when it throws \<open>e\<close>. When the
  lock call rejects, \<^verbatim>\<open>release\<close> is still \<^verbatim>\<open>undefined\<close> and the \<^verbatim>\<open>finally\<close> block
  does nothing.\<close>

definition writeData :: "path \<Rightarrow> jsval \<Rightarrow> world \<Rightarrow> error option \<times> world" where
  "writeData file data w =
     (case lockfile_lock file w of
        (Inl e, w1) \<Rightarrow> (Some e, w1)
      | (Inr u, w1) \<Rightarrow>
          (case fs_writeFileSync file (JSON_stringify data) w1 of
             (r, w2) \<Rightarrow> (r, release file w2)))"

subsection \<open>The submission handlers\<close>

text \<open>\<^verbatim>\<open>xs.push(x)\<close>: only an array has the method.\<close>

fun array_push :: "jsval \<Rightarrow> jsval \<Rightarrow> error + jsval" where
  "array_push (Arr xs ps) x = Inr (Arr (xs @ [x]) ps)"
| "array_push v x = Inl TypeError"

text \<open>The body of the \<^verbatim>\<open>try\<close> block that the three handlers share word for word:
  read the collection, push the record, write the collection.\<close>

definition store_append :: "path \<Rightarrow> jsval \<Rightarrow> world \<Rightarrow> error option \<times> world" where
  "store_append file record w =
     (case readData file w of
        (xs, w1) \<Rightarrow>
          (case array_push xs record of
             Inl e \<Rightarrow> (Some e, w1)
           | Inr xs' \<Rightarrow> writeData file xs' w1))"

record response =
  status :: nat
  success :: bool
  message :: string

definition reply :: "nat \<Rightarrow> bool \<Rightarrow> string \<Rightarrow> response" where
  "reply st ok msg = \<lparr>status = st, success = ok, message = msg\<rparr>"

text \<open>The fields of a form body are strings or absent, as the site's forms post them.
  \<^verbatim>\<open>!name || !name.trim()\<close> is \<open>missing name\<close>; \<^verbatim>\<open>s || d\<close> on strings is \<open>or_else s d\<close>.\<close>

type_synonym body = "string \<Rightarrow> string option"

definition missing :: "string option \<Rightarrow> bool" where
  "missing v = (case v of None \<Rightarrow> True | Some s \<Rightarrow> s = [] \<or> trim s = [])"

definition bad_email :: "string option \<Rightarrow> bool" where
  "bad_email v = (case v of None \<Rightarrow> True | Some s \<Rightarrow> s = [] \<or> \<not> isValidEmail s)"

definition or_else :: "string \<Rightarrow> string \<Rightarrow> string" where
  "or_else s d = (if s = [] then d else s)"

definition make_lead :: "body \<Rightarrow> int \<Rightarrow> int \<Rightarrow> jsval" where
  "make_lead b t_id t_stamp =
     Obj [(''id'', Num t_id),
          (''type'', Str ''lead''),
          (''name'', Str (sanitize (b ''name'') 100)),
          (''email'', Str (toLowerCase (sanitize (b ''email'') 254))),
          (''interest'', Str (or_else (sanitize (b ''interest'') 50) ''general'')),
          (''timestamp'', Str (toISOString t_stamp))]"

definition make_contact :: "body \<Rightarrow> int \<Rightarrow> int \<Rightarrow> jsval" where
  "make_contact b t_id t_stamp =
     Obj [(''id'', Num t_id),
          (''type'', Str ''contact''),
          (''name'', Str (sanitize (b ''name'') 100)),
          (''email'', Str (toLowerCase (sanitize (b ''email'') 254))),
          (''subject'', Str (or_else (sanitize (b ''subject'') 100) ''General Inquiry'')),
          (''message'', Str (sanitize (b ''message'') 5000)),
          (''status'', Str ''new''),
          (''timestamp'', Str (toISOString t_stamp))]"

definition make_investor :: "body \<Rightarrow> int \<Rightarrow> int \<Rightarrow> jsval" where
  "make_investor b t_id t_stamp =
     Obj [(''id'', Num t_id),
          (''type'', Str ''investor''),
          (''name'', Str (sanitize (b ''name'') 100)),
          (''email'', Str (toLowerCase (sanitize (b ''email'') 254))),
          (''company'', Str (sanitize (b ''company'') 100)),
          (''inquiryType'', Str (or_else (sanitize (b ''type'') 50) ''general'')),
          (''message'', Str (sanitize (b ''message'') 5000)),
          (''status'', Str ''new''),
          (''timestamp'', Str (toISOString t_stamp))]"

text \<open>A record is built from two readings of the clock, \<^verbatim>\<open>Date.now()\<close> for the id and
  \<^verbatim>\<open>new Date()\<close> for the timestamp, and handed to the shared \<^verbatim>\<open>try\<close> block.\<close>

definition save :: "path \<Rightarrow> (int \<Rightarrow> int \<Rightarrow> jsval) \<Rightarrow> string \<Rightarrow> string \<Rightarrow> world \<Rightarrow> response \<times> world" where
  "save file build thanks apology w =
     (case Date_now w of
        (t_id, w1) \<Rightarrow>
          (case Date_now w1 of
             (t_stamp, w2) \<Rightarrow>
               (case store_append file (build t_id t_stamp) w2 of
                  (None, w3) \<Rightarrow> (reply 200 True thanks, w3)
                | (Some err, w3) \<Rightarrow> (reply 500 False apology, w3))))"

definition post_leads :: "body \<Rightarrow> world \<Rightarrow> response \<times> world" where
  "post_leads b w =
     (if missing (b ''name'') then (reply 400 False ''Name is required'', w)
      else if bad_email (b ''email'') then (reply 400 False ''Valid email is required'', w)
      else save DATA_FILES_leads (make_lead b)
             ''Thanks for signing up! We'll be in touch soon.''
             ''Server error. Please try again.'' w)"

definition post_contact :: "body \<Rightarrow> world \<Rightarrow> response \<times> world" where
  "post_contact b w =
     (if missing (b ''name'') then (reply 400 False ''Name is required'', w)
      else if bad_email (b ''email'') then (reply 400 False ''Valid email is required'', w)
      else if missing (b ''message'') then (reply 400 False ''Message is required'', w)
      else save DATA_FILES_contacts (make_contact b)
             ''Thanks for reaching out! We'll get back to you soon.''
             ''Server error. Please try again.'' w)"

definition post_investors :: "body \<Rightarrow> world \<Rightarrow> response \<times> world" where
  "post_investors b w =
     (if missing (b ''name'') then (reply 400 False ''Name is required'', w)
      else if bad_email (b ''email'') then (reply 400 False ''Valid email is required'', w)
      else save DATA_FILES_investors (make_investor b)
             ''Thanks for your interest! We'll be in touch shortly.''
             ''Server error. Please try again.'' w)"

subsection \<open>Analytics\<close>

text \<open>
  The analytics writers read and assign nested properties, \<^verbatim>\<open>a.pageViews[dateKey][page]\<close>.
  A path is the list of keys; an assignment through a path changes the object the path
  leads to, which in the model is put back into its parents.
\<close>

fun get_path :: "jsval \<Rightarrow> string list \<Rightarrow> error + jsval" where
  "get_path v [] = Inr v"
| "get_path v (k # ks) = bindE (get_prop v k) (\<lambda>c. get_path c ks)"

fun set_path :: "jsval \<Rightarrow> string list \<Rightarrow> jsval \<Rightarrow> error + jsval" where
  "set_path v [] x = Inr x"
| "set_path v [k] x = set_prop v k x"
| "set_path v (k # ks) x =
     bindE (get_prop v k) (\<lambda>c. bindE (set_path c ks x) (\<lambda>c'. set_prop v k c'))"

text \<open>\<^verbatim>\<open>if (!a.p.q) a.p.q = d;\<close>\<close>

definition ensure :: "jsval \<Rightarrow> string list \<Rightarrow> jsval \<Rightarrow> error + jsval" where
  "ensure a ks d =
     bindE (get_path a ks) (\<lambda>x. if truthy x then Inr a else set_path a ks d)"

text \<open>\<^verbatim>\<open>a.p.q++\<close>. The number of a value is modelled for numbers, booleans,
  \<^verbatim>\<open>null\<close> and the empty string; the increment of anything else (a count that is
  not a number, which only a file edited by hand can hold) is outside the model.\<close>

fun to_number :: "jsval \<Rightarrow> int option" where
  "to_number (Num n) = Some n"
| "to_number (Bool b) = Some (if b then 1 else 0)"
| "to_number Null = Some 0"
| "to_number (Str s) = (if s = [] then Some 0 else None)"
| "to_number v = None"

definition increment :: "jsval \<Rightarrow> string list \<Rightarrow> error + jsval" where
  "increment a ks =
     bindE (get_path a ks)
       (\<lambda>x. case to_number x of
               None \<Rightarrow> Inl Unmodelled
             | Some n \<Rightarrow> set_path a ks (Num (n + 1)))"

text \<open>\<^verbatim>\<open>xs.unshift(x)\<close> and \<^verbatim>\<open>xs.slice(0, n)\<close>: array methods; the slice is a new
  array, without the named properties of the old one.\<close>

fun array_unshift :: "jsval \<Rightarrow> jsval \<Rightarrow> error + jsval" where
  "array_unshift (Arr xs ps) x = Inr (Arr (x # xs) ps)"
| "array_unshift v x = Inl TypeError"

fun array_slice0 :: "jsval \<Rightarrow> nat \<Rightarrow> error + jsval" where
  "array_slice0 (Arr xs ps) n = Inr (Arr (take n xs) [])"
| "array_slice0 v n = Inl TypeError"

text \<open>The counting statements of \<^verbatim>\<open>trackPageView\<close>, one line each.\<close>

definition count_view :: "jsval \<Rightarrow> string \<Rightarrow> string \<Rightarrow> error + jsval" where
  "count_view analytics dateKey page =
     bindE (ensure analytics [''pageViews''] (Obj [])) (\<lambda>a1.
     bindE (ensure a1 [''pageViews'', dateKey] (Obj [])) (\<lambda>a2.
     bindE (ensure a2 [''pageViews'', dateKey, page] (Num 0)) (\<lambda>a3.
     increment a3 [''pageViews'', dateKey, page])))"

text \<open>\<^verbatim>\<open>referer && !referer.includes('tsono.app')\<close>, on a header that is a string or
  absent.\<close>

definition external :: "string option \<Rightarrow> bool" where
  "external referer =
     (case referer of None \<Rightarrow> False | Some s \<Rightarrow> s \<noteq> [] \<and> \<not> str_includes s ''tsono.app'')"

definition referrer_entry :: "string option \<Rightarrow> string \<Rightarrow> int \<Rightarrow> jsval" where
  "referrer_entry referer page t =
     Obj [(''url'', Str (sanitize referer 500)),
          (''page'', Str (sanitize (Some page) 200)),
          (''timestamp'', Str (toISOString t))]"

text \<open>Reading a method of a value (\<^verbatim>\<open>v.push\<close>, \<^verbatim>\<open>v.unshift\<close>) throws on
  \<^verbatim>\<open>undefined\<close> and \<^verbatim>\<open>null\<close>, before the arguments of the call are evaluated.\<close>

definition member_of :: "jsval \<Rightarrow> error + jsval" where
  "member_of v = (if v = Undefined \<or> v = Null then Inl TypeError else Inr v)"

text \<open>The referrer statements: the list is created if it is missing; an external
  referrer is put at its front, with the time of a fresh clock reading, and the list is
  cut to its first 100 entries.\<close>

definition note_referrer :: "jsval \<Rightarrow> string \<Rightarrow> string option \<Rightarrow> world \<Rightarrow> (error + jsval) \<times> world" where
  "note_referrer analytics page referer w =
     (case ensure analytics [''referrers''] (Arr [] []) of
        Inl e \<Rightarrow> (Inl e, w)
      | Inr a1 \<Rightarrow>
          if external referer
          then (case bindE (get_path a1 [''referrers'']) member_of of
                  Inl e \<Rightarrow> (Inl e, w)
                | Inr refs \<Rightarrow>
                    (case Date_now w of
                       (t, w1) \<Rightarrow>
                         (bindE (array_unshift refs (referrer_entry referer page t)) (\<lambda>refs1.
                          bindE (set_path a1 [''referrers''] refs1) (\<lambda>a2.
                          bindE (get_path a2 [''referrers'']) (\<lambda>refs2.
                          bindE (array_slice0 refs2 100) (\<lambda>refs3.
                          set_path a2 [''referrers''] refs3)))), w1)))
          else (Inr a1, w))"

text \<open>
  \<^verbatim>\<open>trackPageView(page, referer, userAgent)\<close>; the user agent is not used. Every error
  is caught and logged, and the function returns. The result is \<open>None\<close> only when the
  run leaves the modelled part of JavaScript (the error \<open>Unmodelled\<close>).
\<close>

definition trackPageView :: "string \<Rightarrow> string option \<Rightarrow> world \<Rightarrow> world option" where
  "trackPageView page referer w =
     (case readData DATA_FILES_analytics w of
        (analytics, w1) \<Rightarrow>
          (case getDateKey w1 of
             (dateKey, w2) \<Rightarrow>
               (case count_view analytics dateKey page of
                  Inl Unmodelled \<Rightarrow> None
                | Inl e \<Rightarrow> Some w2
                | Inr a1 \<Rightarrow>
                    (case note_referrer a1 page referer w2 of
                       (Inl Unmodelled, w3) \<Rightarrow> None
                     | (Inl e, w3) \<Rightarrow> Some w3
                     | (Inr a2, w3) \<Rightarrow> Some (snd (writeData DATA_FILES_analytics a2 w3))))))"

text \<open>Page views tracked one after the other: the requested page and the
  \<^verbatim>\<open>Referer\<close> header of each.\<close>

fun track_all :: "(string \<times> string option) list \<Rightarrow> world \<Rightarrow> world option" where
  "track_all [] w = Some w"
| "track_all ((page, referer) # vs) w =
     (case trackPageView page referer w of None \<Rightarrow> None | Some w1 \<Rightarrow> track_all vs w1)"

text \<open>
  The event endpoint. \<^verbatim>\<open>cutoff.setDate(cutoff.getDate() - 7)\<close> works on local time: the
  time value is moved to local time, the day of the month is set seven days back (the
  day number goes down by seven, the time within the day stays), and the result is
  taken back to UTC with the offset that belongs to that local time. Across a clock
  change the time value so moves by an hour more or less than seven times 86400000.
\<close>

definition seven_days_back :: "world \<Rightarrow> int \<Rightarrow> int" where
  "seven_days_back w t =
     (let local = t + zone_at w t;
          moved = local - 7 * 86400000
      in moved - zone_of_local w moved)"

definition cutoff_key :: "world \<Rightarrow> int \<Rightarrow> string" where
  "cutoff_key w t = date_part (toISOString (seven_days_back w t))"








text \<open>A world to run examples in: an empty disk, no faults, no locks, a clock that
  starts at 2024-01-10T12:00:00.000Z and moves one millisecond per reading, local
  time UTC.\<close>

definition blank :: world where
  "blank = \<lparr>files = (\<lambda>f. None), unreadable = {}, unwritable = {}, residue = (\<lambda>f. None),
            busy = (\<lambda>f. 0), held = {}, wall = (\<lambda>n. 1704888000000 + int n), tick = 0,
            zone_at = (\<lambda>t. 0), zone_of_local = (\<lambda>l. 0)\<rparr>"

text \<open>The same world once the server has started: the four files hold \<^verbatim>\<open>'[]'\<close>.\<close>

definition started :: world where
  "started = blank\<lparr>files := (\<lambda>f. if f \<in> set DATA_FILES_values then Some (JsonText (Arr [] [])) else None)\<rparr>"

text \<open>The lead of the specification's scenario.\<close>

definition jo :: body where
  "jo = (\<lambda>k. None)(''name'' \<mapsto> ''Jo'', ''email'' \<mapsto> ''jo@x.com'', ''interest'' \<mapsto> ''racing'')"

text \<open>A second visitor, with capitals in the address.\<close>

definition ann :: body where
  "ann = (\<lambda>k. None)(''name'' \<mapsto> ''Ann'', ''email'' \<mapsto> ''Ann@Example.COM'',
                       ''message'' \<mapsto> ''Hello'')"

text \<open>The same started server with a clock that stands still: every reading falls in
  one millisecond.\<close>

definition frozen :: world where
  "frozen = started\<lparr>wall := (\<lambda>n. 1704888000000)\<rparr>"


text \<open>Lead submissions handled one after the other.\<close>

fun submit_leads :: "body list \<Rightarrow> world \<Rightarrow> world" where
  "submit_leads [] w = w"
| "submit_leads (b # bs) w = submit_leads bs (snd (post_leads b w))"

text \<open>The ids of the records of a collection as \<^verbatim>\<open>readData\<close> returns it.\<close>

definition id_of :: "jsval \<Rightarrow> jsval" where
  "id_of r = (case get_prop r ''id'' of Inl e \<Rightarrow> Undefined | Inr v \<Rightarrow> v)"

definition ids_of :: "jsval \<Rightarrow> jsval list" where
  "ids_of v = (case v of Arr xs ps \<Rightarrow> map id_of xs | _ \<Rightarrow> [])"

text \<open>The last record of the array that a file holds; \<^verbatim>\<open>undefined\<close> when the file
  holds no array, or an empty one.\<close>

definition last_record :: "path \<Rightarrow> world \<Rightarrow> jsval" where
  "last_record f w =
     (case files w f of
        Some (JsonText (Arr xs ps)) \<Rightarrow> (if xs = [] then Undefined else last xs)
      | _ \<Rightarrow> Undefined)"

text \<open>A record whose \<^verbatim>\<open>email\<close> is a string without capitals, and a collection file
  all of whose records are such.\<close>

definition email_lower :: "jsval \<Rightarrow> bool" where
  "email_lower r =
     (case r of
        Obj ps \<Rightarrow> (case lookup ps ''email'' of
                     Str s \<Rightarrow> (\<forall>c \<in> set s. \<not> is_upper c)
                   | _ \<Rightarrow> False)
      | _ \<Rightarrow> False)"

definition all_lower :: "path \<Rightarrow> world \<Rightarrow> bool" where
  "all_lower f w =
     (case files w f of
        Some (JsonText (Arr xs ps)) \<Rightarrow> (\<forall>r \<in> set xs. email_lower r)
      | _ \<Rightarrow> True)"

text \<open>No fault on a file: it can be read and written, and its lock can be had within
  the retry budget.\<close>

definition serving :: "path \<Rightarrow> world \<Rightarrow> bool" where
  "serving f w = (f \<notin> unreadable w \<and> f \<notin> unwritable w \<and> busy w f \<le> 3 \<and> f \<notin> held w)"

text \<open>A value that \<^verbatim>\<open>JSON.stringify\<close> writes as it is.\<close>

definition stable :: "jsval \<Rightarrow> bool" where
  "stable x = (json_elem (to_json x) = x)"

text \<open>Page view number \<open>i\<close> of a run of visits that each come from another external
  page.\<close>

definition visit :: "nat \<Rightarrow> string \<times> string option" where
  "visit i = (''/index.html'', Some (''https://example.org/'' @ replicate i (CHR ''x'')))"



text \<open>A server in Chicago on 2024-11-07 at 00:30 UTC, four days after the clocks went
  back: local time is five hours behind UTC until 2024-11-03 07:00 UTC, which is 02:00
  local time, and six hours behind from then on.\<close>

definition chicago :: world where
  "chicago = started\<lparr>wall := (\<lambda>n. 1730939400000 + int n),
       zone_at := (\<lambda>t. if t < 1730617200000 then - 18000000 else - 21600000),
       zone_of_local := (\<lambda>l. if l < 1730599200000 then - 18000000 else - 21600000)\<rparr>"





subsection \<open>Appends in flight\<close>

text \<open>
  A handler runs until its next \<^verbatim>\<open>await\<close>; other requests run in between. An append
  in flight is at one of the points where the \<^verbatim>\<open>try\<close> block of a handler can be
  suspended: \<open>Start\<close>, before the block (it has its record); \<open>Locking\<close>, inside
  \<^verbatim>\<open>await lockfile.lock\<close>, with the array it has read and pushed to, and the number
  of retries left; \<open>Locked\<close>, the lock call has resolved; \<open>Releasing\<close>, inside
  \<^verbatim>\<open>await release()\<close>, with the error it will rethrow; \<open>Done\<close>, with the error thrown
  out of the block, if any.
\<close>

datatype task =
    Start jsval
  | Locking jsval nat
  | Locked jsval
  | Releasing "error option"
  | Done "error option"

text \<open>One uninterrupted piece of the block, built from the parts of \<open>readData\<close>,
  \<open>lock_attempts\<close> and \<open>writeData\<close>: the read and the push (and, with the call of the
  lock, its check that the file exists); one attempt at the lock; the write; the
  release.\<close>

fun advance :: "path \<Rightarrow> task \<Rightarrow> world \<Rightarrow> (task \<times> world) option" where
  "advance f (Start record) w =
     (case readData f w of
        (xs, w1) \<Rightarrow>
          (case array_push xs record of
             Inl e \<Rightarrow> Some (Done (Some e), w1)
           | Inr xs' \<Rightarrow>
               if files w1 f = None then Some (Done (Some ENOENT), w1)
               else Some (Locking xs' 3, w1)))"
| "advance f (Locking data n) w =
     (if lock_free f w then Some (Locked data, acquire f w)
      else (case n of
              0 \<Rightarrow> Some (Done (Some ELOCKED), wait f w)
            | Suc m \<Rightarrow> Some (Locking data m, wait f w)))"
| "advance f (Locked data) w =
     (case fs_writeFileSync f (JSON_stringify data) w of
        (r, w1) \<Rightarrow> Some (Releasing r, w1))"
| "advance f (Releasing r) w = Some (Done r, release f w)"
| "advance f (Done r) w = None"

text \<open>The \<open>i\<close>-th append takes its next step; a schedule is the order in which the
  appends take theirs.\<close>

definition step :: "path \<Rightarrow> nat \<Rightarrow> world \<times> task list \<Rightarrow> (world \<times> task list) option" where
  "step f i c =
     (case c of
        (w, ts) \<Rightarrow>
          if i < length ts
          then (case advance f (ts ! i) w of
                  None \<Rightarrow> None
                | Some (t, w1) \<Rightarrow> Some (w1, ts[i := t]))
          else None)"

fun run :: "path \<Rightarrow> nat list \<Rightarrow> world \<times> task list \<Rightarrow> (world \<times> task list) option" where
  "run f [] c = Some c"
| "run f (i # sched) c = (case step f i c of None \<Rightarrow> None | Some c1 \<Rightarrow> run f sched c1)"

text \<open>The appends that have the lock, and the appends that have not begun.\<close>

fun holding :: "task \<Rightarrow> bool" where
  "holding (Locked data) = True"
| "holding (Releasing r) = True"
| "holding t = False"

fun starting :: "task \<Rightarrow> bool" where
  "starting (Start record) = True"
| "starting t = False"

text \<open>What is seen of a run: the text of the file, whether its lock is held, and where
  each append is.\<close>

definition outcome :: "path \<Rightarrow> (world \<times> task list) option \<Rightarrow> (content option \<times> bool \<times> task list) option" where
  "outcome f c = (case c of None \<Rightarrow> None | Some (w, ts) \<Rightarrow> Some (files w f, f \<in> held w, ts))"

text \<open>At most one append has the lock, and when one has it the lock directory
  exists.\<close>

definition exclusive :: "path \<Rightarrow> world \<times> task list \<Rightarrow> bool" where
  "exclusive f c =
     (case c of
        (w, ts) \<Rightarrow>
          (\<forall>i < length ts. \<forall>j < length ts. holding (ts ! i) \<and> holding (ts ! j) \<longrightarrow> i = j) \<and>
          ((\<exists>i < length ts. holding (ts ! i)) \<longrightarrow> f \<in> held w))"


text \<open>Two leads in flight on the started server.\<close>

definition first_lead :: jsval where
  "first_lead = make_lead jo 1704888000000 1704888000000"

definition second_lead :: jsval where
  "second_lead = make_lead ann 1704888000001 1704888000001"

definition two_leads :: "world \<times> task list" where
  "two_leads = (started, [Start first_lead, Start second_lead])"

text \<open>
  The analytics document as the writers leave it when it is an object: page counts per
  date, and the referrer list. \<open>untouched\<close> is a fault-free server whose analytics file
  holds \<^verbatim>\<open>'{}'\<close>; \<open>shaped w rs\<close> one whose file holds counts and the referrer
  entries \<open>rs\<close>, at most 100 of them.
\<close>

definition is_count :: "jsval \<Rightarrow> bool" where
  "is_count c = (case c of Num n \<Rightarrow> True | _ \<Rightarrow> False)"

definition is_counts :: "jsval \<Rightarrow> bool" where
  "is_counts x = (case x of Obj cs \<Rightarrow> list_all (\<lambda>kv. is_count (snd kv)) cs | _ \<Rightarrow> False)"

definition is_days :: "(string \<times> jsval) list \<Rightarrow> bool" where
  "is_days ds = list_all (\<lambda>kv. is_counts (snd kv)) ds"

definition url_of :: "jsval \<Rightarrow> jsval" where
  "url_of r = (case get_prop r ''url'' of Inl e \<Rightarrow> Undefined | Inr v \<Rightarrow> v)"

definition untouched :: "world \<Rightarrow> bool" where
  "untouched w =
     (serving DATA_FILES_analytics w \<and> files w DATA_FILES_analytics = Some (JsonText (Obj [])))"

definition shaped :: "world \<Rightarrow> jsval list \<Rightarrow> bool" where
  "shaped w rs =
     (serving DATA_FILES_analytics w \<and> list_all stable rs \<and> length rs \<le> 100 \<and>
      (\<exists>ds. is_days ds \<and>
         files w DATA_FILES_analytics =
           Some (JsonText (Obj [(''pageViews'', Obj ds), (''referrers'', Arr rs [])]))))"

text \<open>The referrer urls that a run of page views records, oldest first.\<close>

definition referrer_urls :: "(string \<times> string option) list \<Rightarrow> jsval list" where
  "referrer_urls vs = map (\<lambda>v. Str (sanitize (snd v) 500)) (filter (\<lambda>v. external (snd v)) vs)"

section \<open>Properties\<close>

subsection \<open>Startup\<close>

lemmas DATA_FILES_defs =
  DATA_FILES_values_def DATA_FILES_leads_def DATA_FILES_contacts_def
  DATA_FILES_investors_def DATA_FILES_analytics_def

lemma startup_blank: "startup blank = Inr started"
  by (simp add: startup_def init_file_def fs_existsSync_def fs_writeFileSync_def blank_def
      started_def bindE_def DATA_FILES_defs fun_eq_iff)

text \<open>Whatever the disk holds at startup, a data file that is missing is created with
  the text \<^verbatim>\<open>'[]'\<close>, and nothing else is written.\<close>

lemma init_file_files:
  "init_file g w = Inr w' \<Longrightarrow>
   files w' = (if files w g = None then (files w)(g \<mapsto> JsonText (Arr [] [])) else files w)"
  by (auto simp: init_file_def fs_existsSync_def fs_writeFileSync_def
      split: if_splits option.splits)

lemma init_files_missing:
  "init_files gs w = Inr w' \<Longrightarrow>
   files w' f = (if f \<in> set gs \<and> files w f = None then Some (JsonText (Arr [] [])) else files w f)"
proof (induction gs arbitrary: w)
  case Nil
  then show ?case by simp
next
  case (Cons g gs)
  obtain w1 where w1: "init_file g w = Inr w1" "init_files gs w1 = Inr w'"
    using Cons.prems by (cases "init_file g w") (simp_all add: bindE_def)
  show ?case using Cons.IH [OF w1(2)] init_file_files [OF w1(1)] by auto
qed

lemma startup_creates:
  "startup w = Inr w' \<Longrightarrow>
   files w' f = (if f \<in> set DATA_FILES_values \<and> files w f = None
                 then Some (JsonText (Arr [] [])) else files w f)"
  unfolding startup_def by (rule init_files_missing)

text \<open>
  Claim C7. At startup every missing data file is created, the three collections as an
  empty JSON array and the analytics file as an empty JSON object. The code writes
  \<^verbatim>\<open>'[]'\<close> to all four: on an empty disk the analytics file comes out as the empty
  array, which is not the empty object.
\<close>

theorem startup_analytics_is_array:
  "\<exists>w. startup blank = Inr w \<and>
       files w DATA_FILES_leads = Some (JsonText (Arr [] [])) \<and>
       files w DATA_FILES_contacts = Some (JsonText (Arr [] [])) \<and>
       files w DATA_FILES_investors = Some (JsonText (Arr [] [])) \<and>
       files w DATA_FILES_analytics = Some (JsonText (Arr [] [])) \<and>
       files w DATA_FILES_analytics \<noteq> Some (JsonText (Obj []))"
  by (simp add: startup_blank) (simp add: started_def DATA_FILES_defs)

subsection \<open>Reading\<close>

lemma readData_world: "snd (readData file w) = w"
  by (simp add: readData_def fs_readFileSync_def split: option.splits sum.splits content.splits)

text \<open>
  Claim C6. A collection file that is missing, unreadable, or holds text that is not
  JSON is read as the empty array, no error is raised, and the read leaves the whole
  world, the file included, as it was.
\<close>

theorem readData_unavailable:
  "files w file = None \<or> file \<in> unreadable w \<or> (\<exists>s. files w file = Some (BadText s))
   \<Longrightarrow> readData file w = (Arr [] [], w)"
  by (auto simp: readData_def fs_readFileSync_def split: option.splits)

theorem readData_unavailable_witness:
  "files blank DATA_FILES_leads = None \<and>
   readData DATA_FILES_leads blank = (Arr [] [], blank) \<and>
   DATA_FILES_leads \<in> unreadable (started\<lparr>unreadable := {DATA_FILES_leads}\<rparr>) \<and>
   readData DATA_FILES_leads (started\<lparr>unreadable := {DATA_FILES_leads}\<rparr>) =
     (Arr [] [], started\<lparr>unreadable := {DATA_FILES_leads}\<rparr>) \<and>
   files (started\<lparr>files := (files started)(DATA_FILES_leads \<mapsto> BadText ''[{'')\<rparr>) DATA_FILES_leads =
     Some (BadText ''[{'') \<and>
   readData DATA_FILES_leads (started\<lparr>files := (files started)(DATA_FILES_leads \<mapsto> BadText ''[{'')\<rparr>) =
     (Arr [] [], started\<lparr>files := (files started)(DATA_FILES_leads \<mapsto> BadText ''[{'')\<rparr>)"
  using readData_unavailable [of blank DATA_FILES_leads]
    readData_unavailable [of "started\<lparr>unreadable := {DATA_FILES_leads}\<rparr>" DATA_FILES_leads]
    readData_unavailable [of "started\<lparr>files := (files started)(DATA_FILES_leads \<mapsto> BadText ''[{'')\<rparr>"
      DATA_FILES_leads]
  by (simp add: blank_def)

text \<open>
  Claim C9. Two reads of a file with no write between them return the same value: the
  second read starts from the world the first one left, which is the world it found.
\<close>

theorem readData_twice: "readData file (snd (readData file w)) = readData file w"
  by (simp add: readData_world)

lemma readData_array:
  "files w f = Some (JsonText v) \<Longrightarrow> f \<notin> unreadable w \<Longrightarrow> readData f w = (v, w)"
  by (simp add: readData_def fs_readFileSync_def)

subsection \<open>The lock\<close>

lemma lock_attempts_frame:
  "files (snd (lock_attempts n f w)) = files w \<and> unreadable (snd (lock_attempts n f w)) = unreadable w
   \<and> unwritable (snd (lock_attempts n f w)) = unwritable w \<and> wall (snd (lock_attempts n f w)) = wall w
   \<and> tick (snd (lock_attempts n f w)) = tick w \<and> residue (snd (lock_attempts n f w)) = residue w"
  by (induction n arbitrary: w) (simp_all add: acquire_def wait_def)

lemma lock_attempts_ok:
  "busy w f \<le> n \<Longrightarrow> f \<notin> held w \<Longrightarrow>
   fst (lock_attempts n f w) = Inr () \<and> held (snd (lock_attempts n f w)) = insert f (held w)
   \<and> busy (snd (lock_attempts n f w)) f = 0"
  by (induction n arbitrary: w) (auto simp: acquire_def wait_def lock_free_def)

lemma lock_attempts_busy:
  "n < busy w f \<Longrightarrow>
   fst (lock_attempts n f w) = Inl ELOCKED \<and> held (snd (lock_attempts n f w)) = held w"
proof (induction n arbitrary: w)
  case 0
  then show ?case by (simp add: lock_free_def wait_def)
next
  case (Suc n)
  have "n < busy (wait f w) f" using Suc.prems by (simp add: wait_def)
  from Suc.IH [OF this] show ?case using Suc.prems by (simp add: lock_free_def wait_def)
qed

lemma lock_attempts_held:
  "f \<in> held w \<Longrightarrow>
   fst (lock_attempts n f w) = Inl ELOCKED \<and> held (snd (lock_attempts n f w)) = held w"
proof (induction n arbitrary: w)
  case 0
  then show ?case by (simp add: lock_free_def wait_def)
next
  case (Suc n)
  have "f \<in> held (wait f w)" using Suc.prems by (simp add: wait_def)
  from Suc.IH [OF this] show ?case using Suc.prems by (simp add: lock_free_def wait_def)
qed

lemma lockfile_lock_ok:
  assumes "files w f \<noteq> None" "busy w f \<le> 3" "f \<notin> held w"
  obtains w1 where "lockfile_lock f w = (Inr (), w1)" "files w1 = files w"
    "unreadable w1 = unreadable w" "unwritable w1 = unwritable w" "wall w1 = wall w"
    "tick w1 = tick w" "held w1 = insert f (held w)" "busy w1 f = 0"
proof -
  obtain r w1 where eq: "lock_attempts 3 f w = (r, w1)" by fastforce
  have "r = Inr ()" "held w1 = insert f (held w)" "busy w1 f = 0"
    using lock_attempts_ok [of w f 3] assms eq by simp_all
  moreover have "files w1 = files w" "unreadable w1 = unreadable w"
    "unwritable w1 = unwritable w" "wall w1 = wall w" "tick w1 = tick w"
    using lock_attempts_frame [of 3 f w] eq by simp_all
  ultimately show ?thesis using that [of w1] assms eq by (simp add: lockfile_lock_def)
qed

lemma writeData_ok:
  assumes "files w f \<noteq> None" "busy w f \<le> 3" "f \<notin> held w" "f \<notin> unwritable w" "v \<noteq> Undefined"
  obtains w' where "writeData f v w = (None, w')"
    "files w' = (files w)(f \<mapsto> JsonText (to_json v))"
    "unreadable w' = unreadable w" "unwritable w' = unwritable w" "wall w' = wall w"
    "tick w' = tick w" "held w' = held w" "busy w' f = 0"
proof -
  obtain w1 where l: "lockfile_lock f w = (Inr (), w1)" "files w1 = files w"
    "unreadable w1 = unreadable w" "unwritable w1 = unwritable w" "wall w1 = wall w"
    "tick w1 = tick w" "held w1 = insert f (held w)" "busy w1 f = 0"
    using lockfile_lock_ok [OF assms(1-3)] by metis
  let ?w' = "release f (w1\<lparr>files := (files w1)(f \<mapsto> JsonText (to_json v))\<rparr>)"
  have "writeData f v w = (None, ?w')"
    using l assms by (simp add: writeData_def fs_writeFileSync_def JSON_stringify_def)
  then show ?thesis using that [of ?w'] l assms by (simp add: release_def)
qed

subsection \<open>Appending a record\<close>

lemma store_append_ok:
  assumes "files w f = Some (JsonText (Arr xs ps))" "f \<notin> unreadable w" "f \<notin> unwritable w"
    "busy w f \<le> 3" "f \<notin> held w"
  obtains w' where "store_append f r w = (None, w')"
    "files w' = (files w)(f \<mapsto> JsonText (to_json (Arr (xs @ [r]) ps)))"
    "unreadable w' = unreadable w" "unwritable w' = unwritable w" "wall w' = wall w"
    "tick w' = tick w" "held w' = held w" "busy w' f = 0"
proof -
  have rd: "readData f w = (Arr xs ps, w)" using assms by (simp add: readData_array)
  have ne: "files w f \<noteq> None" using assms by simp
  obtain w' where w': "writeData f (Arr (xs @ [r]) ps) w = (None, w')"
    "files w' = (files w)(f \<mapsto> JsonText (to_json (Arr (xs @ [r]) ps)))"
    "unreadable w' = unreadable w" "unwritable w' = unwritable w" "wall w' = wall w"
    "tick w' = tick w" "held w' = held w" "busy w' f = 0"
    using writeData_ok [OF ne assms(4,5,3), of "Arr (xs @ [r]) ps"] by (metis jsval.distinct(9))
  have "store_append f r w = (None, w')" using rd w' by (simp add: store_append_def)
  then show ?thesis using that [of w'] w' by simp
qed

lemma Date_now_twice:
  "(case Date_now w of (a, w1) \<Rightarrow> case Date_now w1 of (b, w2) \<Rightarrow> F a b w2)
   = F (wall w (tick w)) (wall w (Suc (tick w))) (w\<lparr>tick := Suc (Suc (tick w))\<rparr>)"
  by (simp add: Date_now_def)

lemma save_ok:
  assumes "files w f = Some (JsonText (Arr xs ps))" "f \<notin> unreadable w" "f \<notin> unwritable w"
    "busy w f \<le> 3" "f \<notin> held w"
  obtains w' where "save f build thanks apology w = (reply 200 True thanks, w')"
    "files w' = (files w)(f \<mapsto> JsonText (to_json (Arr (xs @ [build (wall w (tick w)) (wall w (Suc (tick w)))]) ps)))"
    "unreadable w' = unreadable w" "unwritable w' = unwritable w" "wall w' = wall w"
    "tick w' = Suc (Suc (tick w))" "held w' = held w" "busy w' f = 0"
proof -
  let ?w2 = "w\<lparr>tick := Suc (Suc (tick w))\<rparr>"
  let ?r = "build (wall w (tick w)) (wall w (Suc (tick w)))"
  have a: "files ?w2 f = Some (JsonText (Arr xs ps))" "f \<notin> unreadable ?w2" "f \<notin> unwritable ?w2"
    "busy ?w2 f \<le> 3" "f \<notin> held ?w2" using assms by simp_all
  obtain w' where w': "store_append f ?r ?w2 = (None, w')"
    "files w' = (files ?w2)(f \<mapsto> JsonText (to_json (Arr (xs @ [?r]) ps)))"
    "unreadable w' = unreadable ?w2" "unwritable w' = unwritable ?w2" "wall w' = wall ?w2"
    "tick w' = tick ?w2" "held w' = held ?w2" "busy w' f = 0"
    using store_append_ok [OF a] by metis
  have "save f build thanks apology w = (reply 200 True thanks, w')"
    unfolding save_def Date_now_twice using w'(1) by simp
  then show ?thesis using that [of w'] w' by simp
qed

lemma lock_attempts_result:
  "held (snd (lock_attempts n f w)) =
     (case fst (lock_attempts n f w) of Inl e \<Rightarrow> held w | Inr u \<Rightarrow> insert f (held w))"
  by (induction n arbitrary: w) (auto simp: acquire_def wait_def split: sum.splits)

lemma lockfile_lock_cases:
  obtains (locked) w1 where "lockfile_lock f w = (Inr (), w1)" "files w1 = files w"
      "held w1 = insert f (held w)" "unwritable w1 = unwritable w" "residue w1 = residue w"
      "busy w f \<le> 3" "f \<notin> held w"
  | (failed) e w1 where "lockfile_lock f w = (Inl e, w1)" "files w1 = files w" "held w1 = held w"
proof (cases "files w f = None")
  case True
  then show ?thesis using failed [of ENOENT w] by (simp add: lockfile_lock_def)
next
  case False
  obtain r w1 where eq: "lock_attempts 3 f w = (r, w1)" by fastforce
  have fr: "files w1 = files w" "unwritable w1 = unwritable w" "residue w1 = residue w"
    using lock_attempts_frame [of 3 f w] eq by simp_all
  show ?thesis
  proof (cases r)
    case (Inl e)
    then show ?thesis
      using failed [of e w1] eq fr False lock_attempts_result [of 3 f w]
      by (simp add: lockfile_lock_def)
  next
    case (Inr u)
    have "busy w f \<le> 3"
      using lock_attempts_busy [of 3 w f] eq Inr by (cases "3 < busy w f") simp_all
    moreover have "f \<notin> held w"
      using lock_attempts_held [of f w 3] eq Inr by (cases "f \<in> held w") simp_all
    ultimately show ?thesis
      using locked [of w1] eq fr False Inr lock_attempts_result [of 3 f w]
      by (simp add: lockfile_lock_def)
  qed
qed

text \<open>How a write can fail, and what it leaves: the files as they were, or, when the
  write failed after the file was opened, the file with the residue.\<close>

lemma writeData_failure:
  "(3 < busy w f \<or> f \<in> held w \<or> f \<in> unwritable w \<longrightarrow> fst (writeData f v w) \<noteq> None)
   \<and> (fst (writeData f v w) \<noteq> None \<longrightarrow>
        files (snd (writeData f v w)) = files w \<or>
        (\<exists>s. f \<in> unwritable w \<and> residue w f = Some s \<and>
             files (snd (writeData f v w)) = (files w)(f \<mapsto> BadText s)))
   \<and> (fst (writeData f v w) \<noteq> None \<and> (3 < busy w f \<or> f \<in> held w \<or> residue w f = None) \<longrightarrow>
        files (snd (writeData f v w)) = files w)
   \<and> (f \<notin> held w \<longrightarrow> held (snd (writeData f v w)) = held w)"
proof (cases rule: lockfile_lock_cases [of f w])
  case (locked w1)
  then show ?thesis
    by (auto simp: writeData_def fs_writeFileSync_def release_def split: option.splits)
next
  case (failed e w1)
  then show ?thesis by (simp add: writeData_def)
qed

lemma writeData_success:
  assumes "writeData f v w = (None, w')"
  shows "files w' = (files w)(f \<mapsto> JsonText (to_json v))"
proof (cases rule: lockfile_lock_cases [of f w])
  case (locked w1)
  then show ?thesis using assms
    by (auto simp: writeData_def fs_writeFileSync_def release_def JSON_stringify_def
        split: option.splits if_splits)
next
  case (failed e w1)
  then show ?thesis using assms by (simp add: writeData_def)
qed

lemma store_append_failure:
  "(3 < busy w f \<or> f \<in> held w \<or> f \<in> unwritable w
      \<longrightarrow> fst (store_append f r w) \<noteq> None)
   \<and> (fst (store_append f r w) \<noteq> None \<longrightarrow>
        files (snd (store_append f r w)) = files w \<or>
        (\<exists>s. f \<in> unwritable w \<and> residue w f = Some s \<and>
             files (snd (store_append f r w)) = (files w)(f \<mapsto> BadText s)))
   \<and> (fst (store_append f r w) \<noteq> None \<and> (3 < busy w f \<or> f \<in> held w \<or> residue w f = None)
      \<longrightarrow> files (snd (store_append f r w)) = files w)
   \<and> (f \<notin> held w \<longrightarrow> held (snd (store_append f r w)) = held w)"
proof (cases "array_push (fst (readData f w)) r")
  case (Inl e)
  then show ?thesis
    using readData_world [of f w]
    by (cases "readData f w") (simp add: store_append_def)
next
  case (Inr xs')
  then show ?thesis
    using readData_world [of f w] writeData_failure [of w f xs']
    by (cases "readData f w") (simp add: store_append_def)
qed



lemma lower_not_upper: "\<not> is_upper (lower_char c)"
  by (auto simp: lower_char_def is_upper_def code_def)

lemma toLowerCase_no_upper: "\<forall>c \<in> set (toLowerCase s). \<not> is_upper c"
  by (simp add: toLowerCase_def lower_not_upper)

lemma store_append_success:
  assumes "store_append f r w = (None, w')"
  shows "\<exists>xs. files w' f = Some (JsonText (Arr (xs @ [json_elem (to_json r)]) []))"
proof -
  obtain v where rd: "readData f w = (v, w)"
    using readData_world [of f w] by (cases "readData f w") simp
  obtain xs ps where v: "v = Arr xs ps"
    using assms rd by (cases v) (simp_all add: store_append_def)
  have "writeData f (Arr (xs @ [r]) ps) w = (None, w')"
    using assms rd v by (simp add: store_append_def)
  from writeData_success [OF this] show ?thesis by simp
qed

lemma save_success:
  assumes "status (fst (save f build thanks apology w)) = 200"
  shows "\<exists>xs. files (snd (save f build thanks apology w)) f =
     Some (JsonText (Arr (xs @ [json_elem (to_json (build (wall w (tick w)) (wall w (Suc (tick w)))))]) []))"
proof -
  let ?w2 = "w\<lparr>tick := Suc (Suc (tick w))\<rparr>"
  let ?r = "build (wall w (tick w)) (wall w (Suc (tick w)))"
  obtain e w3 where eq: "store_append f ?r ?w2 = (e, w3)" by fastforce
  have sv: "save f build thanks apology w =
      (case e of None \<Rightarrow> reply 200 True thanks | Some err \<Rightarrow> reply 500 False apology, w3)"
    unfolding save_def Date_now_twice using eq by (simp split: option.splits)
  have "e = None" using assms sv by (cases e) (simp_all add: reply_def)
  then show ?thesis using store_append_success [of f ?r ?w2 w3] eq sv by simp
qed


lemma map_of_to_json:
  "map_of ps k = Some v \<Longrightarrow> to_json v \<noteq> Undefined \<Longrightarrow>
   map_of (filter (\<lambda>kv. snd kv \<noteq> Undefined) (map (map_prod id to_json) ps)) k = Some (to_json v)"
  by (induction ps) (auto split: if_splits)

lemma email_lower_to_json:
  assumes "email_lower r"
  shows "email_lower (json_elem (to_json r))"
proof -
  obtain ps s where r: "r = Obj ps" "lookup ps ''email'' = Str s" "\<forall>c \<in> set s. \<not> is_upper c"
    using assms by (auto simp: email_lower_def split: jsval.splits)
  have "map_of ps ''email'' = Some (Str s)"
    using r(2) by (auto simp: lookup_def split: option.splits)
  from map_of_to_json [OF this] have "lookup (filter (\<lambda>kv. snd kv \<noteq> Undefined) (map (map_prod id to_json) ps)) ''email'' = Str s"
    by (simp add: lookup_def)
  then show ?thesis using r by (simp add: email_lower_def)
qed

lemma store_append_success':
  assumes "store_append f r w = (None, w')"
  shows "\<exists>xs ps. readData f w = (Arr xs ps, w) \<and>
      files w' = (files w)(f \<mapsto> JsonText (Arr (map (json_elem \<circ> to_json) xs @ [json_elem (to_json r)]) []))"
proof -
  obtain v where rd: "readData f w = (v, w)"
    using readData_world [of f w] by (cases "readData f w") simp
  obtain xs ps where v: "v = Arr xs ps"
    using assms rd by (cases v) (simp_all add: store_append_def)
  have "writeData f (Arr (xs @ [r]) ps) w = (None, w')"
    using assms rd v by (simp add: store_append_def)
  from writeData_success [OF this] show ?thesis using rd v by simp
qed

lemma readData_all_lower:
  assumes "all_lower f w" "readData f w = (Arr xs ps, w)"
  shows "\<forall>r \<in> set xs. email_lower r"
  using assms
  by (auto simp: all_lower_def readData_def fs_readFileSync_def
      split: option.splits if_splits content.splits sum.splits)

lemma save_all_lower:
  assumes inv: "all_lower f w"
    and good: "\<And>a c. email_lower (build a c) \<and> json_elem (to_json (build a c)) = build a c"
  shows "all_lower f (snd (save f build thanks apology w))"
proof -
  let ?w2 = "w\<lparr>tick := Suc (Suc (tick w))\<rparr>"
  let ?r = "build (wall w (tick w)) (wall w (Suc (tick w)))"
  obtain e w3 where eq: "store_append f ?r ?w2 = (e, w3)" by fastforce
  have sv: "snd (save f build thanks apology w) = w3"
    unfolding save_def Date_now_twice using eq by (simp split: option.splits)
  have inv2: "all_lower f ?w2" using inv by (simp add: all_lower_def)
  show ?thesis
  proof (cases e)
    case None
    then obtain xs ps where x: "readData f ?w2 = (Arr xs ps, ?w2)"
      "files w3 = (files ?w2)(f \<mapsto> JsonText (Arr (map (json_elem \<circ> to_json) xs @ [json_elem (to_json ?r)]) []))"
      using store_append_success' [of f ?r ?w2 w3] eq by auto
    have "\<forall>r \<in> set xs. email_lower r" using readData_all_lower [OF inv2 x(1)] .
    then show ?thesis using x(2) good sv
      by (auto simp: all_lower_def email_lower_to_json)
  next
    case (Some err)
    then have "files w3 = files ?w2 \<or> (\<exists>s. files w3 = (files ?w2)(f \<mapsto> BadText s))"
      using store_append_failure [of ?w2 f ?r] eq by auto
    then show ?thesis using inv sv by (auto simp: all_lower_def)
  qed
qed

lemma make_good:
  "email_lower (make_lead b a c) \<and> json_elem (to_json (make_lead b a c)) = make_lead b a c"
  "email_lower (make_contact b a c) \<and> json_elem (to_json (make_contact b a c)) = make_contact b a c"
  "email_lower (make_investor b a c) \<and> json_elem (to_json (make_investor b a c)) = make_investor b a c"
  by (simp_all add: make_lead_def make_contact_def make_investor_def email_lower_def lookup_def
      toLowerCase_no_upper)

lemma make_email:
  "get_prop (make_lead b a c) ''email'' = Inr (Str (toLowerCase (sanitize (b ''email'') 254)))"
  "get_prop (make_contact b a c) ''email'' = Inr (Str (toLowerCase (sanitize (b ''email'') 254)))"
  "get_prop (make_investor b a c) ''email'' = Inr (Str (toLowerCase (sanitize (b ''email'') 254)))"
  by (simp_all add: make_lead_def make_contact_def make_investor_def lookup_def)

lemma save_email:
  assumes "status (fst (save f build thanks apology w)) = 200"
    and "\<And>a c. json_elem (to_json (build a c)) = build a c \<and> get_prop (build a c) ''email'' = Inr (Str e)"
  shows "\<exists>xs r. files (snd (save f build thanks apology w)) f = Some (JsonText (Arr (xs @ [r]) []))
          \<and> get_prop r ''email'' = Inr (Str e)"
  using save_success [OF assms(1)] assms(2) by metis


subsection \<open>The submission handlers\<close>

lemma jo_valid: "\<not> missing (jo ''name'') \<and> \<not> bad_email (jo ''email'')"
  by (simp add: jo_def missing_def bad_email_def trim_def isValidEmail_def is_space_def code_def)

lemma make_lead_jo:
  "make_lead jo a b = Obj [(''id'', Num a), (''type'', Str ''lead''), (''name'', Str ''Jo''),
      (''email'', Str ''jo@x.com''), (''interest'', Str ''racing''), (''timestamp'', Str (toISOString b))]"
  by (simp add: make_lead_def jo_def sanitize_def entities_def trim_def is_space_def code_def
      toLowerCase_def lower_char_def is_upper_def or_else_def)

lemma ann_valid:
  "\<not> missing (ann ''name'')" "\<not> bad_email (ann ''email'')" "\<not> missing (ann ''message'')"
  by (simp_all add: ann_def missing_def bad_email_def trim_def isValidEmail_def is_space_def code_def)

lemma ann_email: "toLowerCase (sanitize (ann ''email'') 254) = ''ann@example.com''"
  unfolding ann_def by code_simp

lemma started_healthy:
  "f \<in> set DATA_FILES_values \<Longrightarrow> files started f = Some (JsonText (Arr [] []))"
  "f \<notin> unreadable started" "f \<notin> unwritable started" "busy started f \<le> 3" "f \<notin> held started"
  by (simp_all add: started_def blank_def)

lemma save_status_ok:
  assumes "files w f = Some (JsonText (Arr xs ps))" "f \<notin> unreadable w" "f \<notin> unwritable w"
    "busy w f \<le> 3" "f \<notin> held w"
  shows "status (fst (save f build thanks apology w)) = 200"
  using save_ok [OF assms, of build thanks apology] by (metis fst_conv reply_def response.select_convs(1))

lemma post_leads_ok:
  assumes "files w DATA_FILES_leads = Some (JsonText (Arr xs []))" "list_all stable xs"
    "serving DATA_FILES_leads w" "\<not> missing (b ''name'')" "\<not> bad_email (b ''email'')"
  obtains w' where "snd (post_leads b w) = w'"
    "files w' DATA_FILES_leads = Some (JsonText (Arr (xs @ [make_lead b (wall w (tick w)) (wall w (Suc (tick w)))]) []))"
    "serving DATA_FILES_leads w'" "wall w' = wall w" "tick w' = Suc (Suc (tick w))"
proof -
  have h: "DATA_FILES_leads \<notin> unreadable w" "DATA_FILES_leads \<notin> unwritable w"
    "busy w DATA_FILES_leads \<le> 3" "DATA_FILES_leads \<notin> held w"
    using assms(3) by (simp_all add: serving_def)
  obtain w' where w': "save DATA_FILES_leads (make_lead b) ''Thanks for signing up! We'll be in touch soon.''
        ''Server error. Please try again.'' w = (reply 200 True ''Thanks for signing up! We'll be in touch soon.'', w')"
    "files w' = (files w)(DATA_FILES_leads \<mapsto> JsonText (to_json (Arr (xs @ [make_lead b (wall w (tick w)) (wall w (Suc (tick w)))]) [])))"
    "unreadable w' = unreadable w" "unwritable w' = unwritable w" "wall w' = wall w"
    "tick w' = Suc (Suc (tick w))" "held w' = held w" "busy w' DATA_FILES_leads = 0"
    using save_ok [OF assms(1) h] by metis
  have m: "map (json_elem \<circ> to_json) xs = xs"
    using assms(2) by (induction xs) (simp_all add: stable_def)
  have "snd (post_leads b w) = w'" using w'(1) assms(4,5) by (simp add: post_leads_def)
  moreover have "files w' DATA_FILES_leads = Some (JsonText (Arr (xs @ [make_lead b (wall w (tick w)) (wall w (Suc (tick w)))]) []))"
    using w'(2) m make_good(1) [of b] by simp
  moreover have "serving DATA_FILES_leads w'" using w' h by (simp add: serving_def)
  ultimately show ?thesis using that [of w'] w' by simp
qed

lemma submit_leads_file:
  assumes "files w DATA_FILES_leads = Some (JsonText (Arr xs []))" "list_all stable xs"
    "serving DATA_FILES_leads w"
    "\<forall>b \<in> set bs. \<not> missing (b ''name'') \<and> \<not> bad_email (b ''email'')"
  shows "files (submit_leads bs w) DATA_FILES_leads =
     Some (JsonText (Arr (xs @ map (\<lambda>i. make_lead (bs ! i) (wall w (tick w + 2 * i)) (wall w (Suc (tick w + 2 * i))))
                                  [0..<length bs]) []))
     \<and> serving DATA_FILES_leads (submit_leads bs w)"
  using assms
proof (induction bs arbitrary: w xs)
  case Nil
  then show ?case by simp
next
  case (Cons b bs)
  let ?r = "make_lead b (wall w (tick w)) (wall w (Suc (tick w)))"
  obtain w' where w': "snd (post_leads b w) = w'"
    "files w' DATA_FILES_leads = Some (JsonText (Arr (xs @ [?r]) []))"
    "serving DATA_FILES_leads w'" "wall w' = wall w" "tick w' = Suc (Suc (tick w))"
    using post_leads_ok [OF Cons.prems(1-3), of b] Cons.prems(4) by auto
  have "stable ?r" using make_good(1) [of b] by (simp add: stable_def)
  then have st: "list_all stable (xs @ [?r])"
    using Cons.prems(2) by simp
  have v: "\<forall>b \<in> set bs. \<not> missing (b ''name'') \<and> \<not> bad_email (b ''email'')"
    using Cons.prems(4) by simp
  from Cons.IH [OF w'(2) st w'(3) v] show ?case
    using w' by (simp add: map_upt_Suc del: upt_Suc)
qed

lemma id_of_make_lead: "id_of (make_lead b a c) = Num a"
  by (simp add: id_of_def make_lead_def lookup_def)

lemma readData_serving:
  "files w f = Some (JsonText v) \<Longrightarrow> serving f w \<Longrightarrow> fst (readData f w) = v"
  by (simp add: readData_array serving_def)

lemma submit_leads_ids:
  assumes "files w DATA_FILES_leads = Some (JsonText (Arr [] []))"
    and "serving DATA_FILES_leads w"
    and "\<forall>b \<in> set bs. \<not> missing (b ''name'') \<and> \<not> bad_email (b ''email'')"
  shows "ids_of (fst (readData DATA_FILES_leads (submit_leads bs w))) =
           map (\<lambda>i. Num (wall w (tick w + 2 * i))) [0..<length bs]"
proof -
  have "list_all stable []" by simp
  from submit_leads_file [OF assms(1) this assms(2,3)] show ?thesis
    by (simp add: readData_serving ids_of_def id_of_make_lead comp_def)
qed


lemma frozen_serving: "serving f frozen"
  by (simp add: serving_def frozen_def started_def blank_def)

text \<open>
  Claim C8. The lead \<open>jo\<close> (name Jo, email jo@x.com, interest racing) submitted to an
  empty leads collection, with the file readable and writable and the lock free within
  the retry budget: the request succeeds and the file then holds exactly one record,
  of type lead, with interest racing, its id the reading of the clock taken for it,
  and its timestamp the ISO-8601 form of the next reading.
\<close>

theorem lead_scenario:
  assumes "files w DATA_FILES_leads = Some (JsonText (Arr [] []))"
    and "DATA_FILES_leads \<notin> unreadable w" and "DATA_FILES_leads \<notin> unwritable w"
    and "busy w DATA_FILES_leads \<le> 3" and "DATA_FILES_leads \<notin> held w"
  shows "fst (post_leads jo w) = reply 200 True ''Thanks for signing up! We'll be in touch soon.'' \<and>
         files (snd (post_leads jo w)) DATA_FILES_leads =
           Some (JsonText (Arr [Obj [(''id'', Num (wall w (tick w))),
                                     (''type'', Str ''lead''),
                                     (''name'', Str ''Jo''),
                                     (''email'', Str ''jo@x.com''),
                                     (''interest'', Str ''racing''),
                                     (''timestamp'', Str (toISOString (wall w (Suc (tick w)))))]] []))"
proof -
  obtain w' where w': "save DATA_FILES_leads (make_lead jo) ''Thanks for signing up! We'll be in touch soon.''
       ''Server error. Please try again.'' w = (reply 200 True ''Thanks for signing up! We'll be in touch soon.'', w')"
    "files w' = (files w)(DATA_FILES_leads \<mapsto>
       JsonText (to_json (Arr ([] @ [make_lead jo (wall w (tick w)) (wall w (Suc (tick w)))]) [])))"
    using save_ok [OF assms] by metis
  have "post_leads jo w = (reply 200 True ''Thanks for signing up! We'll be in touch soon.'', w')"
    using w'(1) jo_valid by (simp add: post_leads_def)
  then show ?thesis using w'(2) by (simp add: make_lead_jo)
qed

theorem lead_scenario_witness:
  "files started DATA_FILES_leads = Some (JsonText (Arr [] [])) \<and>
   DATA_FILES_leads \<notin> unreadable started \<and> DATA_FILES_leads \<notin> unwritable started \<and>
   busy started DATA_FILES_leads \<le> 3 \<and> DATA_FILES_leads \<notin> held started \<and>
   status (fst (post_leads jo started)) = 200 \<and>
   files (snd (post_leads jo started)) DATA_FILES_leads =
     Some (JsonText (Arr [Obj [(''id'', Num 1704888000000),
                               (''type'', Str ''lead''),
                               (''name'', Str ''Jo''),
                               (''email'', Str ''jo@x.com''),
                               (''interest'', Str ''racing''),
                               (''timestamp'', Str ''2024-01-10T12:00:00.001Z'')]] []))"
proof -
  have iso: "toISOString 1704888000001 = ''2024-01-10T12:00:00.001Z''" by code_simp
  have h: "files started DATA_FILES_leads = Some (JsonText (Arr [] []))"
    "DATA_FILES_leads \<notin> unreadable started" "DATA_FILES_leads \<notin> unwritable started"
    "busy started DATA_FILES_leads \<le> 3" "DATA_FILES_leads \<notin> held started"
    by (simp_all add: started_def blank_def DATA_FILES_defs)
  show ?thesis using h lead_scenario [OF h] iso by (simp add: started_def blank_def reply_def)
qed









text \<open>
  Claim C10. A lead, contact or investor request that is answered 200 has put, as the
  last record of its collection, a record whose email is the sanitised input email in
  lower case; that string has no upper-case character; and a collection file all of
  whose records have an email without upper-case characters stays so through every
  request, so no request ever persists a record with a capital in its email.
\<close>

theorem stored_email_lower_case:
  "(status (fst (post_leads b w)) = 200 \<longrightarrow>
      (\<exists>xs r. files (snd (post_leads b w)) DATA_FILES_leads = Some (JsonText (Arr (xs @ [r]) [])) \<and>
         get_prop r ''email'' = Inr (Str (toLowerCase (sanitize (b ''email'') 254)))))
   \<and> (status (fst (post_contact b w)) = 200 \<longrightarrow>
      (\<exists>xs r. files (snd (post_contact b w)) DATA_FILES_contacts = Some (JsonText (Arr (xs @ [r]) [])) \<and>
         get_prop r ''email'' = Inr (Str (toLowerCase (sanitize (b ''email'') 254)))))
   \<and> (status (fst (post_investors b w)) = 200 \<longrightarrow>
      (\<exists>xs r. files (snd (post_investors b w)) DATA_FILES_investors = Some (JsonText (Arr (xs @ [r]) [])) \<and>
         get_prop r ''email'' = Inr (Str (toLowerCase (sanitize (b ''email'') 254)))))
   \<and> (\<forall>c \<in> set (toLowerCase (sanitize (b ''email'') 254)). \<not> is_upper c)
   \<and> (all_lower DATA_FILES_leads w \<longrightarrow> all_lower DATA_FILES_leads (snd (post_leads b w)))
   \<and> (all_lower DATA_FILES_contacts w \<longrightarrow> all_lower DATA_FILES_contacts (snd (post_contact b w)))
   \<and> (all_lower DATA_FILES_investors w \<longrightarrow> all_lower DATA_FILES_investors (snd (post_investors b w)))"
proof -
  have l: "status (fst (post_leads b w)) = 200 \<longrightarrow>
      (\<exists>xs r. files (snd (post_leads b w)) DATA_FILES_leads = Some (JsonText (Arr (xs @ [r]) [])) \<and>
         get_prop r ''email'' = Inr (Str (toLowerCase (sanitize (b ''email'') 254))))"
    using save_email [of DATA_FILES_leads "make_lead b" _ _ w] make_good(1) make_email(1)
    by (auto simp: post_leads_def reply_def)
  have c: "status (fst (post_contact b w)) = 200 \<longrightarrow>
      (\<exists>xs r. files (snd (post_contact b w)) DATA_FILES_contacts = Some (JsonText (Arr (xs @ [r]) [])) \<and>
         get_prop r ''email'' = Inr (Str (toLowerCase (sanitize (b ''email'') 254))))"
    using save_email [of DATA_FILES_contacts "make_contact b" _ _ w] make_good(2) make_email(2)
    by (auto simp: post_contact_def reply_def)
  have i: "status (fst (post_investors b w)) = 200 \<longrightarrow>
      (\<exists>xs r. files (snd (post_investors b w)) DATA_FILES_investors = Some (JsonText (Arr (xs @ [r]) [])) \<and>
         get_prop r ''email'' = Inr (Str (toLowerCase (sanitize (b ''email'') 254))))"
    using save_email [of DATA_FILES_investors "make_investor b" _ _ w] make_good(3) make_email(3)
    by (auto simp: post_investors_def reply_def)
  have il: "all_lower DATA_FILES_leads w \<longrightarrow> all_lower DATA_FILES_leads (snd (post_leads b w))"
    using save_all_lower [of DATA_FILES_leads w "make_lead b"] make_good(1)
    by (simp add: post_leads_def)
  have ic: "all_lower DATA_FILES_contacts w \<longrightarrow> all_lower DATA_FILES_contacts (snd (post_contact b w))"
    using save_all_lower [of DATA_FILES_contacts w "make_contact b"] make_good(2)
    by (simp add: post_contact_def)
  have ii: "all_lower DATA_FILES_investors w \<longrightarrow> all_lower DATA_FILES_investors (snd (post_investors b w))"
    using save_all_lower [of DATA_FILES_investors w "make_investor b"] make_good(3)
    by (simp add: post_investors_def)
  show ?thesis using l c i il ic ii toLowerCase_no_upper by blast
qed


theorem stored_email_lower_case_witness:
  "status (fst (post_leads ann started)) = 200 \<and>
   status (fst (post_contact ann started)) = 200 \<and>
   status (fst (post_investors ann started)) = 200 \<and>
   all_lower DATA_FILES_leads started \<and>
   all_lower DATA_FILES_contacts started \<and>
   all_lower DATA_FILES_investors started \<and>
   (\<exists>xs r. files (snd (post_leads ann started)) DATA_FILES_leads = Some (JsonText (Arr (xs @ [r]) [])) \<and>
      get_prop r ''email'' = Inr (Str ''ann@example.com'')) \<and>
   (\<exists>xs r. files (snd (post_contact ann started)) DATA_FILES_contacts = Some (JsonText (Arr (xs @ [r]) [])) \<and>
      get_prop r ''email'' = Inr (Str ''ann@example.com'')) \<and>
   (\<exists>xs r. files (snd (post_investors ann started)) DATA_FILES_investors = Some (JsonText (Arr (xs @ [r]) [])) \<and>
      get_prop r ''email'' = Inr (Str ''ann@example.com'')) \<and>
   all_lower DATA_FILES_leads (snd (post_leads ann started)) \<and>
   all_lower DATA_FILES_contacts (snd (post_contact ann started)) \<and>
   all_lower DATA_FILES_investors (snd (post_investors ann started))"
proof -
  have s: "status (fst (post_leads ann started)) = 200"
    "status (fst (post_contact ann started)) = 200"
    "status (fst (post_investors ann started)) = 200"
    using ann_valid
      save_status_ok [OF started_healthy(1) started_healthy(2-5), of DATA_FILES_leads]
      save_status_ok [OF started_healthy(1) started_healthy(2-5), of DATA_FILES_contacts]
      save_status_ok [OF started_healthy(1) started_healthy(2-5), of DATA_FILES_investors]
    by (simp_all add: post_leads_def post_contact_def post_investors_def DATA_FILES_values_def)
  have a: "all_lower DATA_FILES_leads started" "all_lower DATA_FILES_contacts started"
    "all_lower DATA_FILES_investors started"
    by (simp_all add: all_lower_def started_def DATA_FILES_values_def)
  show ?thesis
    using s a stored_email_lower_case [of ann started] by (simp add: ann_email)
qed



subsection \<open>Record ids\<close>

text \<open>
  Claim C4, as stated: the ids of the records appended to one collection are pairwise
  distinct, also when two appends fall in the same millisecond. The id is
  \<^verbatim>\<open>Date.now()\<close> and nothing else: with a clock that stands still, the two leads
  \<open>jo\<close> and \<open>ann\<close>, both accepted, are stored under the same id.
\<close>

theorem same_millisecond_same_id:
  "ids_of (fst (readData DATA_FILES_leads (submit_leads [jo, ann] frozen))) =
     [Num 1704888000000, Num 1704888000000]"
proof -
  have f: "files frozen DATA_FILES_leads = Some (JsonText (Arr [] []))"
    by (simp add: frozen_def started_def DATA_FILES_values_def)
  have v: "\<forall>b \<in> set [jo, ann]. \<not> missing (b ''name'') \<and> \<not> bad_email (b ''email'')"
    using jo_valid ann_valid by simp
  from submit_leads_ids [OF f frozen_serving v] show ?thesis
    by (simp add: frozen_def upt_rec)
qed


text \<open>Valid leads submitted one after the other to an empty, fault-free collection:
  the id of the \<open>i\<close>-th record is the clock reading taken for it (two readings are taken
  per record), so the ids in the file are pairwise distinct exactly when those readings
  are.\<close>

lemma sequential_lead_ids:
  assumes "files w DATA_FILES_leads = Some (JsonText (Arr [] []))"
    and "serving DATA_FILES_leads w"
    and "\<forall>b \<in> set bs. \<not> missing (b ''name'') \<and> \<not> bad_email (b ''email'')"
  shows "ids_of (fst (readData DATA_FILES_leads (submit_leads bs w))) =
           map (\<lambda>i. Num (wall w (tick w + 2 * i))) [0..<length bs]
         \<and> (distinct (ids_of (fst (readData DATA_FILES_leads (submit_leads bs w)))) \<longleftrightarrow>
              distinct (map (\<lambda>i. wall w (tick w + 2 * i)) [0..<length bs]))"
proof -
  have "map (\<lambda>i. Num (wall w (tick w + 2 * i))) [0..<length bs] =
        map Num (map (\<lambda>i. wall w (tick w + 2 * i)) [0..<length bs])" by simp
  moreover have "inj_on Num A" for A by (simp add: inj_on_def)
  ultimately show ?thesis
    using submit_leads_ids [OF assms] by (simp add: distinct_map del: map_map)
qed

lemma id_of_make:
  "id_of (make_lead b a c) = Num a" "id_of (make_contact b a c) = Num a"
  "id_of (make_investor b a c) = Num a"
  by (simp_all add: id_of_def make_lead_def make_contact_def make_investor_def lookup_def)

lemma save_last_record:
  assumes "status (fst (save f build thanks apology w)) = 200"
    and "\<And>a c. json_elem (to_json (build a c)) = build a c \<and> id_of (build a c) = Num a"
  shows "id_of (last_record f (snd (save f build thanks apology w))) = Num (wall w (tick w))"
proof -
  obtain xs where "files (snd (save f build thanks apology w)) f =
     Some (JsonText (Arr (xs @ [build (wall w (tick w)) (wall w (Suc (tick w)))]) []))"
    using save_success [OF assms(1)] assms(2) by auto
  then show ?thesis using assms(2) by (simp add: last_record_def)
qed

lemma healthy_worlds:
  "f \<in> set DATA_FILES_values \<Longrightarrow> files frozen f = Some (JsonText (Arr [] []))"
  "f \<notin> unreadable frozen" "f \<notin> unwritable frozen" "busy frozen f \<le> 3" "f \<notin> held frozen"
  "f \<in> set DATA_FILES_values \<Longrightarrow> files (started\<lparr>tick := 2\<rparr>) f = Some (JsonText (Arr [] []))"
  "f \<notin> unreadable (started\<lparr>tick := 2\<rparr>)" "f \<notin> unwritable (started\<lparr>tick := 2\<rparr>)"
  "busy (started\<lparr>tick := 2\<rparr>) f \<le> 3" "f \<notin> held (started\<lparr>tick := 2\<rparr>)"
  by (simp_all add: frozen_def started_def blank_def)


text \<open>
  Claim C4, amended. In each of the three collections, the id of a record that a request
  has appended (the request is answered 200, and the record is the last of the file) is
  the reading of the wall clock in milliseconds taken when the record was built, whatever
  the file held before. So the records appended by two requests have different ids
  exactly when the two readings differ: two records built within the same millisecond
  share their id.
\<close>

theorem ids_are_clock_readings:
  "(status (fst (post_leads b w)) = 200 \<longrightarrow>
      id_of (last_record DATA_FILES_leads (snd (post_leads b w))) = Num (wall w (tick w)))
   \<and> (status (fst (post_contact b w)) = 200 \<longrightarrow>
      id_of (last_record DATA_FILES_contacts (snd (post_contact b w))) = Num (wall w (tick w)))
   \<and> (status (fst (post_investors b w)) = 200 \<longrightarrow>
      id_of (last_record DATA_FILES_investors (snd (post_investors b w))) = Num (wall w (tick w)))
   \<and> (status (fst (post_leads b w)) = 200 \<and> status (fst (post_leads b' w')) = 200 \<longrightarrow>
      (id_of (last_record DATA_FILES_leads (snd (post_leads b w))) =
       id_of (last_record DATA_FILES_leads (snd (post_leads b' w')))
       \<longleftrightarrow> wall w (tick w) = wall w' (tick w')))
   \<and> (status (fst (post_contact b w)) = 200 \<and> status (fst (post_contact b' w')) = 200 \<longrightarrow>
      (id_of (last_record DATA_FILES_contacts (snd (post_contact b w))) =
       id_of (last_record DATA_FILES_contacts (snd (post_contact b' w')))
       \<longleftrightarrow> wall w (tick w) = wall w' (tick w')))
   \<and> (status (fst (post_investors b w)) = 200 \<and> status (fst (post_investors b' w')) = 200 \<longrightarrow>
      (id_of (last_record DATA_FILES_investors (snd (post_investors b w))) =
       id_of (last_record DATA_FILES_investors (snd (post_investors b' w')))
       \<longleftrightarrow> wall w (tick w) = wall w' (tick w')))"
proof -
  have l: "id_of (last_record DATA_FILES_leads (snd (post_leads c u))) = Num (wall u (tick u))"
    if "status (fst (post_leads c u)) = 200" for c u
    using that save_last_record [of DATA_FILES_leads "make_lead c" _ _ u] make_good(1) id_of_make(1)
    by (auto simp: post_leads_def reply_def split: if_splits)
  have c: "id_of (last_record DATA_FILES_contacts (snd (post_contact c u))) = Num (wall u (tick u))"
    if "status (fst (post_contact c u)) = 200" for c u
    using that save_last_record [of DATA_FILES_contacts "make_contact c" _ _ u] make_good(2) id_of_make(2)
    by (auto simp: post_contact_def reply_def split: if_splits)
  have i: "id_of (last_record DATA_FILES_investors (snd (post_investors c u))) = Num (wall u (tick u))"
    if "status (fst (post_investors c u)) = 200" for c u
    using that save_last_record [of DATA_FILES_investors "make_investor c" _ _ u] make_good(3) id_of_make(3)
    by (auto simp: post_investors_def reply_def split: if_splits)
  show ?thesis using l c i by simp
qed


theorem ids_are_clock_readings_witness:
  "status (fst (post_leads ann started)) = 200 \<and>
   status (fst (post_contact ann started)) = 200 \<and>
   status (fst (post_investors ann started)) = 200 \<and>
   id_of (last_record DATA_FILES_leads (snd (post_leads ann started))) = Num 1704888000000 \<and>
   id_of (last_record DATA_FILES_contacts (snd (post_contact ann started))) = Num 1704888000000 \<and>
   id_of (last_record DATA_FILES_investors (snd (post_investors ann started))) = Num 1704888000000 \<and>
   status (fst (post_leads ann (started\<lparr>tick := 2\<rparr>))) = 200 \<and>
   status (fst (post_contact ann (started\<lparr>tick := 2\<rparr>))) = 200 \<and>
   status (fst (post_investors ann (started\<lparr>tick := 2\<rparr>))) = 200 \<and>
   id_of (last_record DATA_FILES_leads (snd (post_leads ann (started\<lparr>tick := 2\<rparr>)))) \<noteq>
     id_of (last_record DATA_FILES_leads (snd (post_leads ann started))) \<and>
   id_of (last_record DATA_FILES_contacts (snd (post_contact ann (started\<lparr>tick := 2\<rparr>)))) \<noteq>
     id_of (last_record DATA_FILES_contacts (snd (post_contact ann started))) \<and>
   id_of (last_record DATA_FILES_investors (snd (post_investors ann (started\<lparr>tick := 2\<rparr>)))) \<noteq>
     id_of (last_record DATA_FILES_investors (snd (post_investors ann started))) \<and>
   status (fst (post_leads ann frozen)) = 200 \<and>
   status (fst (post_contact ann frozen)) = 200 \<and>
   status (fst (post_investors ann frozen)) = 200 \<and>
   id_of (last_record DATA_FILES_leads (snd (post_leads ann frozen))) =
     id_of (last_record DATA_FILES_leads (snd (post_leads ann started))) \<and>
   id_of (last_record DATA_FILES_contacts (snd (post_contact ann frozen))) =
     id_of (last_record DATA_FILES_contacts (snd (post_contact ann started))) \<and>
   id_of (last_record DATA_FILES_investors (snd (post_investors ann frozen))) =
     id_of (last_record DATA_FILES_investors (snd (post_investors ann started)))"
proof -
  have s: "status (fst (post_leads ann started)) = 200"
    "status (fst (post_contact ann started)) = 200"
    "status (fst (post_investors ann started)) = 200"
    using ann_valid
      save_status_ok [OF started_healthy(1) started_healthy(2-5), of DATA_FILES_leads]
      save_status_ok [OF started_healthy(1) started_healthy(2-5), of DATA_FILES_contacts]
      save_status_ok [OF started_healthy(1) started_healthy(2-5), of DATA_FILES_investors]
    by (simp_all add: post_leads_def post_contact_def post_investors_def DATA_FILES_values_def)
  have t: "status (fst (post_leads ann (started\<lparr>tick := 2\<rparr>))) = 200"
    "status (fst (post_contact ann (started\<lparr>tick := 2\<rparr>))) = 200"
    "status (fst (post_investors ann (started\<lparr>tick := 2\<rparr>))) = 200"
    using ann_valid
      save_status_ok [OF healthy_worlds(6) healthy_worlds(7-10), of DATA_FILES_leads]
      save_status_ok [OF healthy_worlds(6) healthy_worlds(7-10), of DATA_FILES_contacts]
      save_status_ok [OF healthy_worlds(6) healthy_worlds(7-10), of DATA_FILES_investors]
    by (simp_all add: post_leads_def post_contact_def post_investors_def DATA_FILES_values_def)
  have z: "status (fst (post_leads ann frozen)) = 200"
    "status (fst (post_contact ann frozen)) = 200"
    "status (fst (post_investors ann frozen)) = 200"
    using ann_valid
      save_status_ok [OF healthy_worlds(1) healthy_worlds(2-5), of DATA_FILES_leads]
      save_status_ok [OF healthy_worlds(1) healthy_worlds(2-5), of DATA_FILES_contacts]
      save_status_ok [OF healthy_worlds(1) healthy_worlds(2-5), of DATA_FILES_investors]
    by (simp_all add: post_leads_def post_contact_def post_investors_def DATA_FILES_values_def)
  have c: "wall started (tick started) = 1704888000000"
    "wall (started\<lparr>tick := 2\<rparr>) (tick (started\<lparr>tick := 2\<rparr>)) = 1704888000002"
    "wall frozen (tick frozen) = 1704888000000"
    by (simp_all add: frozen_def started_def blank_def)
  show ?thesis
    using s t z c ids_are_clock_readings [of ann started ann "started\<lparr>tick := 2\<rparr>"]
      ids_are_clock_readings [of ann started ann frozen]
    by auto
qed



subsection \<open>Analytics: the referrer list\<close>

lemma count_view_array:
  "count_view (Arr [] []) dk page =
     Inr (Arr [] [(''pageViews'', Obj [(dk, Obj [(page, Num 1)])])])"
  by (simp add: count_view_def ensure_def increment_def bindE_def lookup_def)

lemma note_referrer_array:
  "\<exists>ps w'. note_referrer (Arr [] [(''pageViews'', x)]) page referer w = (Inr (Arr [] ps), w')
      \<and> files w' = files w \<and> unwritable w' = unwritable w"
  by (simp add: note_referrer_def ensure_def bindE_def lookup_def member_of_def Date_now_def)

lemma writeData_unwritable: "unwritable (snd (writeData f v w)) = unwritable w"
proof -
  obtain r w1 where l: "lockfile_lock f w = (r, w1)" by fastforce
  have u: "unwritable w1 = unwritable w"
    using l lock_attempts_frame [of 3 f w] by (auto simp: lockfile_lock_def split: if_splits)
  obtain e w2 where x: "fs_writeFileSync f (JSON_stringify v) w1 = (e, w2)" by fastforce
  have "unwritable w2 = unwritable w1"
    using x by (auto simp: fs_writeFileSync_def split: option.splits if_splits)
  then show ?thesis using l u x by (cases r) (simp_all add: writeData_def release_def)
qed

lemma writeData_array:
  assumes "files w f = Some (JsonText (Arr [] []))" "f \<notin> unwritable w"
  shows "files (snd (writeData f (Arr [] ps) w)) f = Some (JsonText (Arr [] []))"
proof (cases "fst (writeData f (Arr [] ps) w)")
  case None
  then have "writeData f (Arr [] ps) w = (None, snd (writeData f (Arr [] ps) w))"
    by (metis prod.collapse)
  from writeData_success [OF this] show ?thesis by simp
next
  case (Some e)
  then show ?thesis using writeData_failure [of w f "Arr [] ps"] assms by simp
qed

lemma readData_empty:
  "files w f = Some (JsonText (Arr [] [])) \<Longrightarrow> readData f w = (Arr [] [], w)"
  by (simp add: readData_def fs_readFileSync_def)

lemma trackPageView_array:
  assumes "files w DATA_FILES_analytics = Some (JsonText (Arr [] []))"
    "DATA_FILES_analytics \<notin> unwritable w"
  shows "\<exists>w'. trackPageView page referer w = Some w' \<and>
              files w' DATA_FILES_analytics = Some (JsonText (Arr [] [])) \<and>
              DATA_FILES_analytics \<notin> unwritable w'"
proof -
  obtain dk w2 where g: "getDateKey w = (dk, w2)" by fastforce
  have f2: "files w2 = files w" "unwritable w2 = unwritable w"
    using g by (auto simp: getDateKey_def Date_now_def)
  obtain ps w3 where n: "note_referrer (Arr [] [(''pageViews'', Obj [(dk, Obj [(page, Num 1)])])]) page referer w2
      = (Inr (Arr [] ps), w3)" "files w3 = files w2" "unwritable w3 = unwritable w2"
    using note_referrer_array by blast
  have "trackPageView page referer w = Some (snd (writeData DATA_FILES_analytics (Arr [] ps) w3))"
    using readData_empty [OF assms(1)] n(1) g
    by (simp add: trackPageView_def count_view_array)
  moreover have "files w3 DATA_FILES_analytics = Some (JsonText (Arr [] []))"
    "DATA_FILES_analytics \<notin> unwritable w3"
    using n(2,3) f2 assms by simp_all
  ultimately show ?thesis using writeData_array writeData_unwritable by simp
qed

lemma track_all_array:
  assumes "files w DATA_FILES_analytics = Some (JsonText (Arr [] []))"
    "DATA_FILES_analytics \<notin> unwritable w"
  shows "\<exists>w'. track_all vs w = Some w' \<and>
              files w' DATA_FILES_analytics = Some (JsonText (Arr [] []))"
  using assms
proof (induction vs arbitrary: w)
  case Nil
  then show ?case by simp
next
  case (Cons v vs)
  obtain page referer where v: "v = (page, referer)" by (cases v)
  obtain w1 where w1: "trackPageView page referer w = Some w1"
    "files w1 DATA_FILES_analytics = Some (JsonText (Arr [] []))"
    "DATA_FILES_analytics \<notin> unwritable w1"
    using trackPageView_array [OF Cons.prems] by blast
  from Cons.IH [OF w1(2,3)] show ?case using v w1(1) by simp
qed


lemma no_tsono_in_xs: "\<not> str_includes (replicate i (CHR ''x'')) ''tsono.app''"
  by (induction i) simp_all

lemma visit_external: "external (snd (visit i))"
  by (simp add: visit_def external_def no_tsono_in_xs)

lemma visit_inj: "inj_on (\<lambda>i. snd (visit i)) A"
proof (rule inj_onI)
  fix i j assume "snd (visit i) = snd (visit j)"
  then have "length (replicate i (CHR ''x'')) = length (replicate j (CHR ''x''))"
    by (simp add: visit_def)
  then show "i = j" by simp
qed

lemma visits_distinct: "distinct (map (\<lambda>i. snd (visit i)) [0..<n])"
  by (simp add: distinct_map visit_inj)

text \<open>
  Claim C2. After a run of page views with at least 150 distinct external referrers the
  stored referrer list has exactly 100 entries, newest first. On the server as it
  starts (the analytics file holds \<^verbatim>\<open>'[]'\<close>) the document in memory is an array,
  \<^verbatim>\<open>pageViews\<close> and \<^verbatim>\<open>referrers\<close> become named properties of that array, and
  \<^verbatim>\<open>JSON.stringify\<close> writes an array without them: after 150 such views the file
  still holds the empty array and no referrer list at all.
\<close>

theorem referrers_not_persisted:
  "length (map visit [0..<150]) = 150 \<and>
   list_all (\<lambda>v. external (snd v)) (map visit [0..<150]) \<and>
   distinct (map snd (map visit [0..<150])) \<and>
   (\<exists>w. track_all (map visit [0..<150]) started = Some w \<and>
        files w DATA_FILES_analytics = Some (JsonText (Arr [] [])))"
proof -
  have "files started DATA_FILES_analytics = Some (JsonText (Arr [] []))"
    "DATA_FILES_analytics \<notin> unwritable started"
    by (simp_all add: started_def blank_def DATA_FILES_values_def)
  from track_all_array [OF this, of "map visit [0..<150]"] show ?thesis
    using visits_distinct [of 150] by (simp add: list_all_iff visit_external comp_def)
qed


subsection \<open>Analytics: events\<close>

lemma lookup_update [simp]:
  "lookup (AList.update k v ps) k' = (if k = k' then v else lookup ps k')"
  by (simp add: lookup_def update_conv')

lemma lookup_Nil [simp]: "lookup [] k = Undefined"
  by (simp add: lookup_def)

lemma lookup_Cons [simp]: "lookup ((k, v) # ps) k' = (if k = k' then v else lookup ps k')"
  by (simp add: lookup_def)








lemma cutoff_key_tick [simp]: "cutoff_key (w\<lparr>tick := n\<rparr>) t = cutoff_key w t"
  by (simp add: cutoff_key_def seven_days_back_def)

text \<open>The seven days are days of local time. On the server in Chicago, at
  2024-11-07 00:30 UTC (18:30 on 2024-11-06 local time), the cutoff is 18:30 on
  2024-10-30 local time, which was 23:30 UTC that day: the cutoff key is 2024-10-30,
  where seven times 24 hours back give 2024-10-31.\<close>

lemma cutoff_key_chicago:
  "wall chicago 0 = 1730939400000"
  "toISOString 1730939400000 = ''2024-11-07T00:30:00.000Z''"
  "seven_days_back chicago 1730939400000 = 1730331000000"
  "toISOString 1730331000000 = ''2024-10-30T23:30:00.000Z''"
  "cutoff_key chicago (wall chicago 0) = ''2024-10-30''"
  "date_part (toISOString (1730939400000 - 7 * 86400000)) = ''2024-10-31''"
proof -
  show a: "wall chicago 0 = 1730939400000" by (simp add: chicago_def)
  show "toISOString 1730939400000 = ''2024-11-07T00:30:00.000Z''" by code_simp
  show b: "seven_days_back chicago 1730939400000 = 1730331000000"
    by (simp add: seven_days_back_def chicago_def)
  show c: "toISOString 1730331000000 = ''2024-10-30T23:30:00.000Z''" by code_simp
  have "date_part ''2024-10-30T23:30:00.000Z'' = ''2024-10-30''" by code_simp
  then show "cutoff_key chicago (wall chicago 0) = ''2024-10-30''"
    using a b c by (simp add: cutoff_key_def)
  show "date_part (toISOString (1730939400000 - 7 * 86400000)) = ''2024-10-31''" by code_simp
qed




lemma note_referrer_frame:
  "note_referrer a page referer w = (r, w') \<Longrightarrow>
   files w' = files w \<and> unreadable w' = unreadable w \<and> unwritable w' = unwritable w \<and>
   busy w' = busy w \<and> held w' = held w \<and> wall w' = wall w"
  by (auto simp: note_referrer_def Date_now_def split: sum.splits if_splits)



















subsection \<open>Concurrent appends\<close>

text \<open>An append that runs alone, with no other request between its steps, does what
  \<open>store_append\<close> does.\<close>

lemma run_append:
  "run f (xs @ ys) c = (case run f xs c of None \<Rightarrow> None | Some c1 \<Rightarrow> run f ys c1)"
  by (induction xs arbitrary: c) (simp_all split: option.splits)

lemma solo_locking:
  "\<exists>k. run f (replicate k 0) (w, [Locking d n]) =
     Some (case lock_attempts n f w of
             (Inl e, w1) \<Rightarrow> (w1, [Done (Some e)])
           | (Inr u, w1) \<Rightarrow> (w1, [Locked d]))"
proof (induction n arbitrary: w)
  case 0
  have "run f (replicate 1 0) (w, [Locking d 0]) =
     Some (case lock_attempts 0 f w of
             (Inl e, w1) \<Rightarrow> (w1, [Done (Some e)])
           | (Inr u, w1) \<Rightarrow> (w1, [Locked d]))"
    by (simp add: step_def)
  then show ?case by blast
next
  case (Suc n)
  show ?case
  proof (cases "lock_free f w")
    case True
    then have "run f (replicate 1 0) (w, [Locking d (Suc n)]) =
       Some (case lock_attempts (Suc n) f w of
               (Inl e, w1) \<Rightarrow> (w1, [Done (Some e)])
             | (Inr u, w1) \<Rightarrow> (w1, [Locked d]))"
      by (simp add: step_def)
    then show ?thesis by blast
  next
    case False
    obtain k where k: "run f (replicate k 0) (wait f w, [Locking d n]) =
       Some (case lock_attempts n f (wait f w) of
               (Inl e, w1) \<Rightarrow> (w1, [Done (Some e)])
             | (Inr u, w1) \<Rightarrow> (w1, [Locked d]))"
      using Suc.IH by blast
    have "run f (replicate (Suc k) 0) (w, [Locking d (Suc n)]) =
       Some (case lock_attempts (Suc n) f w of
               (Inl e, w1) \<Rightarrow> (w1, [Done (Some e)])
             | (Inr u, w1) \<Rightarrow> (w1, [Locked d]))"
      using False k by (simp add: step_def)
    then show ?thesis by blast
  qed
qed

lemma solo_writing:
  "run f (replicate 2 0) (w, [Locked d]) =
     Some (case fs_writeFileSync f (JSON_stringify d) w of
             (r, w1) \<Rightarrow> (release f w1, [Done r]))"
  by (simp add: step_def numeral_2_eq_2 split: prod.splits)

lemma solo_writeData:
  assumes "files w f \<noteq> None"
  shows "\<exists>k. run f (replicate k 0) (w, [Locking d 3]) =
     Some (snd (writeData f d w), [Done (fst (writeData f d w))])"
proof -
  obtain k where k: "run f (replicate k 0) (w, [Locking d 3]) =
     Some (case lock_attempts 3 f w of
             (Inl e, w1) \<Rightarrow> (w1, [Done (Some e)])
           | (Inr u, w1) \<Rightarrow> (w1, [Locked d]))"
    using solo_locking by blast
  obtain r w1 where l: "lock_attempts 3 f w = (r, w1)" by fastforce
  obtain y where y: "files w f = Some y" using assms by auto
  show ?thesis
  proof (cases r)
    case (Inl e)
    then have "run f (replicate k 0) (w, [Locking d 3]) =
        Some (snd (writeData f d w), [Done (fst (writeData f d w))])"
      using k l y by (simp add: writeData_def lockfile_lock_def)
    then show ?thesis by blast
  next
    case (Inr u)
    then have "run f (replicate k 0 @ replicate 2 0) (w, [Locking d 3]) =
        Some (snd (writeData f d w), [Done (fst (writeData f d w))])"
      unfolding run_append using k l y solo_writing [of f w1 d]
      by (auto simp: writeData_def lockfile_lock_def split: sum.splits prod.splits)
    then show ?thesis by (metis replicate_add)
  qed
qed

lemma solo_append:
  "\<exists>k. run f (replicate k 0) (w, [Start r]) =
     Some (snd (store_append f r w), [Done (fst (store_append f r w))])"
proof -
  obtain xs where rd: "readData f w = (xs, w)"
    using readData_world [of f w] by (cases "readData f w") simp
  show ?thesis
  proof (cases "array_push xs r")
    case (Inl e)
    then have "run f (replicate 1 0) (w, [Start r]) =
        Some (snd (store_append f r w), [Done (fst (store_append f r w))])"
      using rd by (simp add: step_def store_append_def)
    then show ?thesis by blast
  next
    case (Inr xs')
    show ?thesis
    proof (cases "files w f = None")
      case True
      then have "run f (replicate 1 0) (w, [Start r]) =
          Some (snd (store_append f r w), [Done (fst (store_append f r w))])"
        using rd Inr by (simp add: step_def store_append_def writeData_def lockfile_lock_def)
      then show ?thesis by blast
    next
      case False
      obtain k where k: "run f (replicate k 0) (w, [Locking xs' 3]) =
          Some (snd (writeData f xs' w), [Done (fst (writeData f xs' w))])"
        using solo_writeData [OF False] by blast
      obtain y where y: "files w f = Some y" using False by auto
      have "run f (replicate (Suc k) 0) (w, [Start r]) =
          Some (snd (store_append f r w), [Done (fst (store_append f r w))])"
        using rd Inr y k by (simp add: step_def store_append_def)
      then show ?thesis by blast
    qed
  qed
qed

lemma exclusive_update_idle:
  assumes "exclusive f (w, ts)" "i < length ts" "\<not> holding t" "held w1 = held w"
  shows "exclusive f (w1, ts[i := t])"
  using assms unfolding exclusive_def by (auto simp: nth_list_update split: if_splits)

lemma exclusive_update_keep:
  assumes "exclusive f (w, ts)" "i < length ts" "holding (ts ! i)" "holding t" "held w1 = held w"
  shows "exclusive f (w1, ts[i := t])"
  using assms unfolding exclusive_def by (auto simp: nth_list_update split: if_splits)

lemma exclusive_update_acquire:
  assumes "exclusive f (w, ts)" "i < length ts" "f \<notin> held w"
  shows "exclusive f (acquire f w, ts[i := t])"
  using assms unfolding exclusive_def by (auto simp: nth_list_update acquire_def split: if_splits)

lemma exclusive_update_release:
  assumes "exclusive f (w, ts)" "i < length ts" "holding (ts ! i)" "\<not> holding t"
  shows "exclusive f (release f w, ts[i := t])"
  using assms unfolding exclusive_def by (auto simp: nth_list_update release_def split: if_splits)

lemma advance_exclusive:
  assumes "exclusive f (w, ts)" "i < length ts" "advance f (ts ! i) w = Some (t, w1)"
  shows "exclusive f (w1, ts[i := t])"
proof (cases "ts ! i")
  case (Start r)
  then have "\<not> holding t" "held w1 = held w"
    using assms(3) readData_world [of f w]
    by (auto split: prod.splits sum.splits if_splits)
  then show ?thesis using exclusive_update_idle [OF assms(1,2)] by simp
next
  case (Locking d n)
  show ?thesis
  proof (cases "lock_free f w")
    case True
    then have "w1 = acquire f w" "f \<notin> held w"
      using assms(3) Locking by (simp_all add: lock_free_def)
    then show ?thesis using exclusive_update_acquire [OF assms(1,2)] by simp
  next
    case False
    then have "\<not> holding t" "held w1 = held w"
      using assms(3) Locking by (auto simp: wait_def split: nat.splits)
    then show ?thesis using exclusive_update_idle [OF assms(1,2)] by simp
  qed
next
  case (Locked d)
  then have "holding t" "held w1 = held w" "holding (ts ! i)"
    using assms(3) by (auto simp: fs_writeFileSync_def split: sum.splits option.splits if_splits)
  then show ?thesis using exclusive_update_keep [OF assms(1,2)] by simp
next
  case (Releasing r)
  then have "\<not> holding t" "w1 = release f w" "holding (ts ! i)"
    using assms(3) by auto
  then show ?thesis using exclusive_update_release [OF assms(1,2)] by simp
next
  case (Done r)
  then show ?thesis using assms(3) by simp
qed

lemma step_exclusive:
  assumes "exclusive f c" "step f i c = Some c1"
  shows "exclusive f c1"
proof -
  obtain w ts where c: "c = (w, ts)" by (cases c)
  have i: "i < length ts" using assms(2) c by (simp add: step_def split: if_splits)
  obtain t w1 where a: "advance f (ts ! i) w = Some (t, w1)" "c1 = (w1, ts[i := t])"
    using assms(2) c i by (auto simp: step_def split: option.splits)
  show ?thesis using advance_exclusive [OF _ i a(1)] assms(1) c a(2) by simp
qed

lemma run_exclusive:
  "exclusive f c \<Longrightarrow> run f sched c = Some c1 \<Longrightarrow> exclusive f c1"
proof (induction sched arbitrary: c)
  case Nil
  then show ?case by simp
next
  case (Cons i sched)
  then show ?case by (auto split: option.splits dest: step_exclusive)
qed

lemma starting_exclusive:
  "list_all starting ts \<Longrightarrow> exclusive f (w, ts)"
proof -
  assume a: "list_all starting ts"
  have "\<not> holding (ts ! i)" if "i < length ts" for i
    using a that by (cases "ts ! i") (auto simp: list_all_length)
  then show ?thesis by (auto simp: exclusive_def)
qed

lemma step_write:
  assumes "step f i (w, ts) = Some (w1, ts1)" "files w1 \<noteq> files w"
  shows "i < length ts \<and> (\<exists>data. ts ! i = Locked data)"
proof -
  have i: "i < length ts" using assms(1) by (simp add: step_def split: if_splits)
  obtain t where a: "advance f (ts ! i) w = Some (t, w1)"
    using assms(1) i by (auto simp: step_def split: option.splits)
  have "\<exists>data. ts ! i = Locked data"
    using a assms(2) readData_world [of f w]
    by (cases "ts ! i")
       (auto simp: acquire_def wait_def release_def split: prod.splits sum.splits if_splits nat.splits)
  then show ?thesis using i by simp
qed

lemmas run_defs =
  step_def readData_def fs_readFileSync_def fs_writeFileSync_def JSON_stringify_def
  lock_free_def acquire_def wait_def release_def

lemma started_leads: "files started DATA_FILES_leads = Some (JsonText (Arr [] []))"
  "unreadable started = {}" "unwritable started = {}" "held started = {}" "busy started f = 0"
  by (simp_all add: started_def blank_def DATA_FILES_values_def)

lemma leads_stable: "json_elem (to_json first_lead) = first_lead"
  "json_elem (to_json second_lead) = second_lead"
  using make_good(1) by (simp_all add: first_lead_def second_lead_def)

lemma run_reads:
  "run DATA_FILES_leads [0, 1] two_leads =
     Some (started, [Locking (Arr [first_lead] []) 3, Locking (Arr [second_lead] []) 3])"
  by (simp add: two_leads_def run_defs started_leads)

lemma run_first_locked:
  "run DATA_FILES_leads [0, 1, 0] two_leads =
     Some (started\<lparr>held := {DATA_FILES_leads}\<rparr>,
           [Locked (Arr [first_lead] []), Locking (Arr [second_lead] []) 3])"
  by (simp add: two_leads_def run_defs started_leads)

lemma run_first_done:
  "run DATA_FILES_leads [0, 1, 0, 0, 0] two_leads =
     Some (started\<lparr>held := {}, files := (files started)(DATA_FILES_leads \<mapsto> JsonText (Arr [first_lead] []))\<rparr>,
           [Done None, Locking (Arr [second_lead] []) 3])"
  by (simp add: two_leads_def run_defs started_leads leads_stable)


text \<open>
  Claim C1. The read of the array, the push and the write of an append are to happen
  under the file's lock, so that the read-modify-write cycles of two appends to one
  collection never interleave and no append undoes another. The handlers read and push
  before \<^verbatim>\<open>writeData\<close> asks for the lock; only the write is under it. Two leads in
  flight on the started server: both read the empty array while the lock is free; the
  first takes the lock, the second finds it taken and waits; the first writes and
  releases; the second takes the lock and writes the array it read before. Both appends
  complete without an error, and the file holds the second lead only: the first lead,
  accepted and written, is lost.
\<close>

theorem interleaved_appends_lose_a_record:
  "outcome DATA_FILES_leads (run DATA_FILES_leads [0, 1] two_leads) =
     Some (Some (JsonText (Arr [] [])), False,
           [Locking (Arr [first_lead] []) 3, Locking (Arr [second_lead] []) 3]) \<and>
   outcome DATA_FILES_leads (run DATA_FILES_leads [0, 1, 0, 1, 0, 0, 1, 1, 1] two_leads) =
     Some (Some (JsonText (Arr [second_lead] [])), False, [Done None, Done None])"
  by (simp add: two_leads_def run_defs started_leads leads_stable outcome_def)

text \<open>
  What the lock does give. From appends that have not begun, under every schedule: a
  step that changes the files is the write of an append that has acquired the lock; the
  lock is held at that moment and no other append has it.
\<close>

lemma writes_hold_the_lock:
  assumes "list_all starting ts0"
    and "run f sched (w0, ts0) = Some (w, ts)"
    and "step f i (w, ts) = Some (w1, ts1)"
    and "files w1 \<noteq> files w"
  shows "(\<exists>data. ts ! i = Locked data) \<and> f \<in> held w \<and>
         (\<forall>j < length ts. j \<noteq> i \<longrightarrow> \<not> holding (ts ! j))"
proof -
  have e: "exclusive f (w, ts)"
    using run_exclusive [OF starting_exclusive [OF assms(1)] assms(2)] .
  have l: "i < length ts" "\<exists>data. ts ! i = Locked data"
    using step_write [OF assms(3,4)] by simp_all
  then have h: "holding (ts ! i)" by auto
  show ?thesis using e l h unfolding exclusive_def by auto
qed



lemma writes_hold_the_lock_example:
  "list_all starting [Start first_lead, Start second_lead] \<and>
   run DATA_FILES_leads [0, 1, 0] (started, [Start first_lead, Start second_lead]) =
     Some (started\<lparr>held := {DATA_FILES_leads}\<rparr>,
           [Locked (Arr [first_lead] []), Locking (Arr [second_lead] []) 3]) \<and>
   step DATA_FILES_leads 0 (started\<lparr>held := {DATA_FILES_leads}\<rparr>,
           [Locked (Arr [first_lead] []), Locking (Arr [second_lead] []) 3]) =
     Some (started\<lparr>held := {DATA_FILES_leads},
                    files := (files started)(DATA_FILES_leads \<mapsto> JsonText (Arr [first_lead] []))\<rparr>,
           [Releasing None, Locking (Arr [second_lead] []) 3]) \<and>
   files (started\<lparr>held := {DATA_FILES_leads},
                    files := (files started)(DATA_FILES_leads \<mapsto> JsonText (Arr [first_lead] []))\<rparr>)
     \<noteq> files (started\<lparr>held := {DATA_FILES_leads}\<rparr>) \<and>
   DATA_FILES_leads \<in> held (started\<lparr>held := {DATA_FILES_leads}\<rparr>) \<and>
   \<not> holding ([Locked (Arr [first_lead] []), Locking (Arr [second_lead] []) 3] ! 1)"
proof -
  let ?L = DATA_FILES_leads
  let ?w3 = "started\<lparr>held := {?L}\<rparr>"
  let ?ts3 = "[Locked (Arr [first_lead] []), Locking (Arr [second_lead] []) 3]"
  let ?w4 = "started\<lparr>held := {?L}, files := (files started)(?L \<mapsto> JsonText (Arr [first_lead] []))\<rparr>"
  let ?ts4 = "[Releasing None, Locking (Arr [second_lead] []) 3]"
  have a: "list_all starting [Start first_lead, Start second_lead]" by simp
  have b: "run ?L [0, 1, 0] (started, [Start first_lead, Start second_lead]) = Some (?w3, ?ts3)"
    using run_first_locked by (simp add: two_leads_def)
  have c: "step ?L 0 (?w3, ?ts3) = Some (?w4, ?ts4)"
    by (simp add: run_defs started_leads leads_stable)
  have "files ?w4 ?L \<noteq> files ?w3 ?L" by (simp add: started_leads)
  then have d: "files ?w4 \<noteq> files ?w3" by metis
  show ?thesis using writes_hold_the_lock [OF a b c d] a b c d by simp
qed



subsection \<open>Analytics on an object document\<close>

lemma list_all_update:
  "list_all (\<lambda>kv. P (snd kv)) al \<Longrightarrow> P v \<Longrightarrow> list_all (\<lambda>kv. P (snd kv)) (AList.update k v al)"
  by (induction al) auto

lemma list_all_lookup:
  "list_all (\<lambda>kv. P (snd kv)) al \<Longrightarrow> lookup al k = Undefined \<or> P (lookup al k)"
  by (induction al) (auto simp: lookup_def)


lemma is_counts_lookup:
  assumes "is_days ds"
  obtains "lookup ds k = Undefined" | cs where "lookup ds k = Obj cs" "list_all (\<lambda>kv. is_count (snd kv)) cs"
  using list_all_lookup [of is_counts ds k] assms
  by (auto simp: is_days_def is_counts_def split: jsval.splits)

lemma is_count_lookup:
  assumes "list_all (\<lambda>kv. is_count (snd kv)) cs"
  obtains "lookup cs k = Undefined" | n where "lookup cs k = Num n"
  using list_all_lookup [of is_count cs k] assms
  by (auto simp: is_count_def split: jsval.splits)

lemma is_days_update:
  "is_days ds \<Longrightarrow> list_all (\<lambda>kv. is_count (snd kv)) cs \<Longrightarrow> is_days (AList.update k (Obj cs) ds)"
  unfolding is_days_def by (rule list_all_update) (simp_all add: is_counts_def)

lemma is_count_update:
  "list_all (\<lambda>kv. is_count (snd kv)) cs \<Longrightarrow> list_all (\<lambda>kv. is_count (snd kv)) (AList.update k (Num n) cs)"
  by (rule list_all_update) (simp_all add: is_count_def)

lemmas count_defs = count_view_def ensure_def increment_def bindE_def

lemma count_view_days:
  assumes "is_days ds"
  shows "\<exists>ds'. count_view (Obj [(''pageViews'', Obj ds), (''referrers'', R)]) dk page =
            Inr (Obj [(''pageViews'', Obj ds'), (''referrers'', R)]) \<and> is_days ds'"
proof (cases rule: is_counts_lookup [OF assms, of dk])
  case 1
  have "count_view (Obj [(''pageViews'', Obj ds), (''referrers'', R)]) dk page =
     Inr (Obj [(''pageViews'', Obj (AList.update dk (Obj [(page, Num 1)]) ds)), (''referrers'', R)])"
    using 1 by (simp add: count_defs)
  moreover have "is_days (AList.update dk (Obj [(page, Num 1)]) ds)"
    using assms by (intro is_days_update) (simp_all add: is_count_def)
  ultimately show ?thesis by blast
next
  case (2 cs)
  show ?thesis
  proof (cases rule: is_count_lookup [OF 2(2), of page])
    case 1
    have "count_view (Obj [(''pageViews'', Obj ds), (''referrers'', R)]) dk page =
       Inr (Obj [(''pageViews'', Obj (AList.update dk (Obj (AList.update page (Num 1) cs)) ds)),
                 (''referrers'', R)])"
      using 1 2(1) by (simp add: count_defs)
    moreover have "is_days (AList.update dk (Obj (AList.update page (Num 1) cs)) ds)"
      using assms 2(2) by (intro is_days_update is_count_update)
    ultimately show ?thesis by blast
  next
    case (2 n)
    have "count_view (Obj [(''pageViews'', Obj ds), (''referrers'', R)]) dk page =
       Inr (Obj [(''pageViews'', Obj (AList.update dk (Obj (AList.update page (Num (n + 1)) cs)) ds)),
                 (''referrers'', R)])"
      using 2 \<open>lookup ds dk = Obj cs\<close> by (cases "n = 0") (simp_all add: count_defs)
    moreover have "is_days (AList.update dk (Obj (AList.update page (Num (n + 1)) cs)) ds)"
      using assms \<open>list_all (\<lambda>kv. is_count (snd kv)) cs\<close> by (intro is_days_update is_count_update)
    ultimately show ?thesis by blast
  qed
qed


lemma note_referrer_obj:
  "note_referrer (Obj [(''pageViews'', PV), (''referrers'', Arr rs [])]) page referer w =
     (if external referer
      then (Inr (Obj [(''pageViews'', PV),
                      (''referrers'', Arr (take 100 (referrer_entry referer page (wall w (tick w)) # rs)) [])]),
            w\<lparr>tick := Suc (tick w)\<rparr>)
      else (Inr (Obj [(''pageViews'', PV), (''referrers'', Arr rs [])]), w))"
  by (simp add: note_referrer_def ensure_def bindE_def member_of_def Date_now_def)

lemma note_referrer_first:
  "note_referrer (Obj [(''pageViews'', PV)]) page referer w =
     (if external referer
      then (Inr (Obj [(''pageViews'', PV),
                      (''referrers'', Arr (take 100 [referrer_entry referer page (wall w (tick w))]) [])]),
            w\<lparr>tick := Suc (tick w)\<rparr>)
      else (Inr (Obj [(''pageViews'', PV), (''referrers'', Arr [] [])]), w))"
  by (simp add: note_referrer_def ensure_def bindE_def member_of_def Date_now_def)

lemma counts_stable:
  "list_all (\<lambda>kv. is_count (snd kv)) cs \<Longrightarrow>
   filter (\<lambda>kv. snd kv \<noteq> Undefined) (map (map_prod id to_json) cs) = cs"
  by (induction cs) (auto simp: is_count_def split: jsval.splits)

lemma days_stable:
  "is_days ds \<Longrightarrow> filter (\<lambda>kv. snd kv \<noteq> Undefined) (map (map_prod id to_json) ds) = ds"
  unfolding is_days_def
  by (induction ds) (auto simp: is_counts_def counts_stable split: jsval.splits)

lemma stable_list: "list_all stable rs \<Longrightarrow> map (json_elem \<circ> to_json) rs = rs"
  by (induction rs) (simp_all add: stable_def)

lemma referrer_entry_stable: "stable (referrer_entry referer page t)"
  by (simp add: stable_def referrer_entry_def)

lemma url_of_entry: "url_of (referrer_entry referer page t) = Str (sanitize referer 500)"
  by (simp add: url_of_def referrer_entry_def)

lemma doc_stable:
  "is_days ds \<Longrightarrow> list_all stable rs \<Longrightarrow>
   to_json (Obj [(''pageViews'', Obj ds), (''referrers'', Arr rs [])]) =
     Obj [(''pageViews'', Obj ds), (''referrers'', Arr rs [])]"
  by (simp add: days_stable stable_list)

lemma trackPageView_written:
  assumes "files w DATA_FILES_analytics = Some (JsonText a)" "serving DATA_FILES_analytics w"
    and "count_view a (date_part (toISOString (wall w (tick w)))) page = Inr a1"
    and "note_referrer a1 page referer (w\<lparr>tick := Suc (tick w)\<rparr>) = (Inr a2, w3)"
    and "a2 \<noteq> Undefined"
  shows "\<exists>w'. trackPageView page referer w = Some w' \<and>
           files w' = (files w)(DATA_FILES_analytics \<mapsto> JsonText (to_json a2)) \<and>
           serving DATA_FILES_analytics w'"
proof -
  let ?A = DATA_FILES_analytics
  have rd: "readData ?A w = (a, w)" using assms(1,2) by (simp add: readData_array serving_def)
  have g: "getDateKey w = (date_part (toISOString (wall w (tick w))), w\<lparr>tick := Suc (tick w)\<rparr>)"
    by (simp add: getDateKey_def Date_now_def)
  have fr: "files w3 = files w" "unwritable w3 = unwritable w" "busy w3 = busy w" "held w3 = held w"
    "unreadable w3 = unreadable w"
    using note_referrer_frame [OF assms(4)] by simp_all
  have h: "files w3 ?A \<noteq> None" "busy w3 ?A \<le> 3" "?A \<notin> held w3" "?A \<notin> unwritable w3"
    using fr assms(1,2) by (simp_all add: serving_def)
  obtain w' where w': "writeData ?A a2 w3 = (None, w')"
    "files w' = (files w3)(?A \<mapsto> JsonText (to_json a2))"
    "unreadable w' = unreadable w3" "unwritable w' = unwritable w3" "held w' = held w3"
    "busy w' ?A = 0"
    using writeData_ok [OF h assms(5)] by metis
  have "trackPageView page referer w = Some w'"
    using rd g assms(3,4) w'(1) by (simp add: trackPageView_def)
  moreover have "serving ?A w'" using w' fr assms(2) by (simp add: serving_def)
  ultimately show ?thesis using w'(2) fr by simp
qed

lemma trackPageView_shaped:
  assumes "(rs = [] \<and> untouched w) \<or> shaped w rs"
  shows "\<exists>w' t. trackPageView page referer w = Some w' \<and>
           shaped w' (if external referer then take 100 (referrer_entry referer page t # rs) else rs)"
proof -
  let ?A = DATA_FILES_analytics
  let ?dk = "date_part (toISOString (wall w (tick w)))"
  let ?w2 = "w\<lparr>tick := Suc (tick w)\<rparr>"
  let ?e = "referrer_entry referer page (wall ?w2 (tick ?w2))"
  let ?rs' = "if external referer then take 100 (?e # rs) else rs"
  have sv: "serving ?A w" and st: "list_all stable rs" and le: "length rs \<le> 100"
    using assms by (auto simp: shaped_def untouched_def)
  have st': "list_all stable ?rs'"
    using st referrer_entry_stable by (auto simp: list_all_iff dest: in_set_takeD)
  have le': "length ?rs' \<le> 100" using le by simp
  from assms consider
      (empty) "rs = []" "files w ?A = Some (JsonText (Obj []))"
    | (full) ds where "is_days ds"
        "files w ?A = Some (JsonText (Obj [(''pageViews'', Obj ds), (''referrers'', Arr rs [])]))"
    by (auto simp: shaped_def untouched_def)
  then obtain a ds' w3 where x: "files w ?A = Some (JsonText a)"
      "count_view a ?dk page = Inr (Obj ((''pageViews'', Obj ds') # (if a = Obj [] then [] else [(''referrers'', Arr rs [])])))"
      "is_days ds'"
      "note_referrer (Obj ((''pageViews'', Obj ds') # (if a = Obj [] then [] else [(''referrers'', Arr rs [])]))) page referer ?w2
         = (Inr (Obj [(''pageViews'', Obj ds'), (''referrers'', Arr ?rs' [])]), w3)"
  proof cases
    case empty
    have c: "count_view (Obj []) ?dk page = Inr (Obj [(''pageViews'', Obj [(?dk, Obj [(page, Num 1)])])])"
      by (simp add: count_defs)
    have d: "is_days [(?dk, Obj [(page, Num 1)])]"
      by (simp add: is_days_def is_counts_def is_count_def)
    show ?thesis
      using that [of "Obj []" "[(?dk, Obj [(page, Num 1)])]"] empty c d
        note_referrer_first [of "Obj [(?dk, Obj [(page, Num 1)])]" page referer ?w2]
      by (simp split: if_splits)
  next
    case (full ds)
    obtain ds' where c: "count_view (Obj [(''pageViews'', Obj ds), (''referrers'', Arr rs [])]) ?dk page =
        Inr (Obj [(''pageViews'', Obj ds'), (''referrers'', Arr rs [])])" "is_days ds'"
      using count_view_days [OF full(1)] by blast
    show ?thesis
      using that [of "Obj [(''pageViews'', Obj ds), (''referrers'', Arr rs [])]" ds'] full c
        note_referrer_obj [of "Obj ds'" rs page referer ?w2]
      by (simp split: if_splits)
  qed
  have ne: "Obj [(''pageViews'', Obj ds'), (''referrers'', Arr ?rs' [])] \<noteq> Undefined" by simp
  obtain w' where w': "trackPageView page referer w = Some w'"
    "files w' = (files w)(?A \<mapsto> JsonText (to_json (Obj [(''pageViews'', Obj ds'), (''referrers'', Arr ?rs' [])])))"
    "serving ?A w'"
    using trackPageView_written [OF x(1) sv x(2) x(4) ne] by blast
  have "files w' ?A = Some (JsonText (Obj [(''pageViews'', Obj ds'), (''referrers'', Arr ?rs' [])]))"
    using w'(2) doc_stable [OF x(3) st'] by simp
  then have "shaped w' ?rs'" using w'(3) st' le' x(3) unfolding shaped_def by blast
  then show ?thesis using w'(1) by blast
qed

lemma take_append_take: "take n (xs @ take n ys) = take n (xs @ ys)"
  by (simp add: min_def)

lemma track_all_shaped:
  assumes "(rs = [] \<and> untouched w \<and> vs \<noteq> []) \<or> shaped w rs"
  shows "\<exists>w' rs'. track_all vs w = Some w' \<and> shaped w' rs' \<and>
           map url_of rs' = take 100 (rev (referrer_urls vs) @ map url_of rs)"
  using assms
proof (induction vs arbitrary: w rs)
  case Nil
  then show ?case by (auto simp: referrer_urls_def shaped_def)
next
  case (Cons v vs)
  obtain page referer where v: "v = (page, referer)" by (cases v)
  have "(rs = [] \<and> untouched w) \<or> shaped w rs" using Cons.prems by auto
  then obtain w1 t where w1: "trackPageView page referer w = Some w1"
    "shaped w1 (if external referer then take 100 (referrer_entry referer page t # rs) else rs)"
    using trackPageView_shaped by blast
  let ?rs1 = "if external referer then take 100 (referrer_entry referer page t # rs) else rs"
  obtain w' rs' where r: "track_all vs w1 = Some w'" "shaped w' rs'"
    "map url_of rs' = take 100 (rev (referrer_urls vs) @ map url_of ?rs1)"
    using Cons.IH [of ?rs1 w1] w1(2) by blast
  have "take 100 (rev (referrer_urls vs) @ map url_of ?rs1) =
        take 100 (rev (referrer_urls (v # vs)) @ map url_of rs)"
  proof (cases "external referer")
    case True
    have "map url_of ?rs1 = take 100 (Str (sanitize referer 500) # map url_of rs)"
      using True take_map [of 100 url_of "referrer_entry referer page t # rs"]
      by (simp only: if_True list.map url_of_entry)
    moreover have "rev (referrer_urls (v # vs)) @ map url_of rs =
        rev (referrer_urls vs) @ Str (sanitize referer 500) # map url_of rs"
      using True v by (simp add: referrer_urls_def)
    ultimately show ?thesis by (simp only: take_append_take)
  next
    case False
    then show ?thesis using v by (simp add: referrer_urls_def)
  qed
  then show ?case using v w1(1) r by auto
qed

text \<open>
  What the referrer statements of \<^verbatim>\<open>trackPageView\<close> do on an analytics file that
  holds an object (\<^verbatim>\<open>'{}'\<close> to begin with): after a run of page views the stored
  list is the urls of the external referrers, newest first, cut to 100, and the 150
  visits of claim C2 leave exactly 100 entries. The cap and the order are in the code;
  what keeps them from the disk is the array the file is initialised with.
\<close>

lemma referrers_capped_on_object:
  assumes "files w DATA_FILES_analytics = Some (JsonText (Obj []))"
    and "serving DATA_FILES_analytics w" and "vs \<noteq> []"
  shows "\<exists>w' ds rs. track_all vs w = Some w' \<and>
           files w' DATA_FILES_analytics =
             Some (JsonText (Obj [(''pageViews'', Obj ds), (''referrers'', Arr rs [])])) \<and>
           map url_of rs = take 100 (rev (referrer_urls vs)) \<and>
           length rs = min 100 (length (filter (\<lambda>v. external (snd v)) vs))"
proof -
  have "([] = [] \<and> untouched w \<and> vs \<noteq> []) \<or> shaped w []"
    using assms by (simp add: untouched_def)
  from track_all_shaped [OF this] obtain w' rs where r: "track_all vs w = Some w'"
    "shaped w' rs" "map url_of rs = take 100 (rev (referrer_urls vs))"
    by auto
  have "length (map url_of rs) = length (take 100 (rev (referrer_urls vs)))"
    using r(3) by simp
  then have "length rs = min 100 (length (filter (\<lambda>v. external (snd v)) vs))"
    by (simp add: referrer_urls_def min.commute)
  then show ?thesis using r by (auto simp: shaped_def)
qed

lemma referrers_capped_150:
  "\<exists>w' ds rs.
     track_all (map visit [0..<150])
       (started\<lparr>files := (files started)(DATA_FILES_analytics \<mapsto> JsonText (Obj []))\<rparr>) = Some w' \<and>
     files w' DATA_FILES_analytics =
       Some (JsonText (Obj [(''pageViews'', Obj ds), (''referrers'', Arr rs [])])) \<and>
     length rs = 100"
proof -
  let ?w = "started\<lparr>files := (files started)(DATA_FILES_analytics \<mapsto> JsonText (Obj []))\<rparr>"
  have a: "files ?w DATA_FILES_analytics = Some (JsonText (Obj []))" by simp
  have b: "serving DATA_FILES_analytics ?w" by (simp add: serving_def started_def blank_def)
  have c: "map visit [0..<150] \<noteq> []" by simp
  have "filter (\<lambda>v. external (snd v)) (map visit [0..<150]) = map visit [0..<150]"
    by (simp add: filter_map comp_def visit_external)
  then have "length (filter (\<lambda>v. external (snd v)) (map visit [0..<150])) = 150" by simp
  then show ?thesis using referrers_capped_on_object [OF a b c] by auto
qed

end
